theory Spec2Isabelle
  imports Main
begin

section \<open>Values and the object store\<close>

text \<open>
  The reactivity layer works on JavaScript values. Objects live in a store and are
  named by their address; two object values are identical (\<open>===\<close>) exactly when
  their addresses are equal.
\<close>

type_synonym addr = nat

text \<open>
  Numbers are only ever compared here (\<open>Object.is\<close>, SameValueZero, \<open>!==\<close>), never
  computed with. \<open>Fin 0\<close> is \<open>+0\<close>; \<open>NegZero\<close> is \<open>-0\<close>; there is one \<open>NaN\<close>.
\<close>

datatype jsnum = NaN | NegZero | Fin int

text \<open>
  A symbol is either its own (\<open>Symbol()\<close>, and the well-known symbols), or one of the
  global registry (\<open>Symbol.for(key)\<close>), where equal keys give the same symbol.
\<close>

datatype symbol = Unique nat | Registered string

datatype val =
    Undefined
  | Null
  | Bool bool
  | Number jsnum
  | BigInt int
  | Str string
  | Sym symbol
  | Obj addr

text \<open>The keys of \<open>ReactiveFlags\<close> (\<open>__v_skip\<close>, \<open>__v_isReactive\<close>, ...).\<close>

datatype ReactiveFlags = SKIP | IS_REACTIVE | IS_READONLY | IS_SHALLOW | RAW | IS_REF

text \<open>
  The internal slot of a collection: \<open>[[MapData]]\<close> or \<open>[[SetData]]\<close>, in insertion
  order; the flag says whether the collection is the weak variant.
\<close>

datatype slots =
    NoSlots
  | MapData bool "(val \<times> val) list"
  | SetData bool "val list"

text \<open>
  An ordinary (non-proxy) object, as far as this code looks at it: what
  \<open>Object.prototype.toString\<close> answers for it, whether it is extensible, whether
  \<open>typeof\<close> says \<open>function\<close>, the value found under each reactive flag key
  (\<open>Undefined\<close> when the property is absent), and its collection slot.
\<close>

record object =
  typeString :: string
  extensible :: bool
  callable :: bool
  props :: "ReactiveFlags \<Rightarrow> val"
  slots :: slots

text \<open>The four handler objects that \<open>reactive\<close> and \<open>readonly\<close> pass to \<open>new Proxy\<close>.\<close>

datatype handlers =
    mutableHandlers
  | readonlyHandlers
  | mutableCollectionHandlers
  | readonlyCollectionHandlers

datatype cell = Ordinary object | ProxyOf addr handlers

datatype TriggerOpTypes = ADD | SET | DELETE | CLEAR

text \<open>One call \<open>trigger(target, type, key, newValue)\<close>.\<close>

datatype event = Trigger val TriggerOpTypes val val

type_synonym heap = "addr \<Rightarrow> cell option"

text \<open>
  The module state of \<open>reactive.ts\<close>: the store, the next free address, the two
  proxy caches, and the calls of \<open>trigger\<close> made so far, each with the store it was
  made in.
\<close>

record state =
  heap :: heap
  nxt :: addr
  reactiveMap :: "addr \<Rightarrow> addr option"
  readonlyMap :: "addr \<Rightarrow> addr option"
  triggered :: "(event \<times> heap) list"

datatype proxyMap = ReactiveMap | ReadonlyMap

definition proxyMap_get :: "state \<Rightarrow> proxyMap \<Rightarrow> addr \<Rightarrow> addr option" where
  "proxyMap_get s m a = (case m of ReactiveMap \<Rightarrow> reactiveMap s a | ReadonlyMap \<Rightarrow> readonlyMap s a)"

definition proxyMap_set :: "state \<Rightarrow> proxyMap \<Rightarrow> addr \<Rightarrow> addr \<Rightarrow> state" where
  "proxyMap_set s m a p =
     (case m of
        ReactiveMap \<Rightarrow> s\<lparr>reactiveMap := (reactiveMap s)(a \<mapsto> p)\<rparr>
      | ReadonlyMap \<Rightarrow> s\<lparr>readonlyMap := (readonlyMap s)(a \<mapsto> p)\<rparr>)"

text \<open>\<open>new Proxy(target, handlers)\<close>: a fresh object at the next free address.\<close>

definition newProxy :: "state \<Rightarrow> addr \<Rightarrow> handlers \<Rightarrow> addr \<times> state" where
  "newProxy s target h =
     (nxt s, s\<lparr>heap := (heap s)(nxt s \<mapsto> ProxyOf target h), nxt := Suc (nxt s)\<rparr>)"

section \<open>Language primitives\<close>

text \<open>\<open>ToBoolean\<close>.\<close>

fun truthy :: "val \<Rightarrow> bool" where
  "truthy Undefined = False"
| "truthy Null = False"
| "truthy (Bool b) = b"
| "truthy (Number n) = (n \<noteq> NaN \<and> n \<noteq> NegZero \<and> n \<noteq> Fin 0)"
| "truthy (BigInt i) = (i \<noteq> 0)"
| "truthy (Str s) = (s \<noteq> [])"
| "truthy (Sym _) = True"
| "truthy (Obj _) = True"

text \<open>
  Following a proxy down to the ordinary object under it. A proxy without traps for
  an operation forwards the operation to its target. The result is \<open>None\<close> when the
  walk does not end.
\<close>

partial_function (option) underlying :: "heap \<Rightarrow> addr \<Rightarrow> (addr \<times> object) option" where
  "underlying h a =
     (case h a of
        None \<Rightarrow> None
      | Some (Ordinary ob) \<Rightarrow> Some (a, ob)
      | Some (ProxyOf t _) \<Rightarrow> underlying h t)"

text \<open>\<open>typeof\<close>: a proxy is callable when its target is.\<close>

definition typeof :: "state \<Rightarrow> val \<Rightarrow> string option" where
  "typeof s v =
     (case v of
        Undefined \<Rightarrow> Some ''undefined''
      | Null \<Rightarrow> Some ''object''
      | Bool _ \<Rightarrow> Some ''boolean''
      | Number _ \<Rightarrow> Some ''number''
      | BigInt _ \<Rightarrow> Some ''bigint''
      | Str _ \<Rightarrow> Some ''string''
      | Sym _ \<Rightarrow> Some ''symbol''
      | Obj a \<Rightarrow>
          (case underlying (heap s) a of
             None \<Rightarrow> None
           | Some (_, ob) \<Rightarrow> Some (if callable ob then ''function'' else ''object'')))"

text \<open>\<open>Object.isExtensible\<close>: false for a primitive; a proxy answers for its target.\<close>

definition isExtensible :: "state \<Rightarrow> val \<Rightarrow> bool option" where
  "isExtensible s v =
     (case v of
        Obj a \<Rightarrow> (case underlying (heap s) a of None \<Rightarrow> None | Some (_, ob) \<Rightarrow> Some (extensible ob))
      | _ \<Rightarrow> Some False)"

text \<open>
  \<open>Object.prototype.toString.call(value)\<close>. A proxy made by this module answers as
  its target does: it is an array exactly when the target is, and its handlers pass the
  read of \<open>Symbol.toStringTag\<close> on to the target, which, having been proxied, answers
  with one of the six names of \<open>targetTypeMap\<close>.
\<close>

definition objectToString :: "state \<Rightarrow> val \<Rightarrow> string option" where
  "objectToString s v =
     (case v of
        Undefined \<Rightarrow> Some ''[object Undefined]''
      | Null \<Rightarrow> Some ''[object Null]''
      | Bool _ \<Rightarrow> Some ''[object Boolean]''
      | Number _ \<Rightarrow> Some ''[object Number]''
      | BigInt _ \<Rightarrow> Some ''[object BigInt]''
      | Str _ \<Rightarrow> Some ''[object String]''
      | Sym _ \<Rightarrow> Some ''[object Symbol]''
      | Obj a \<Rightarrow> (case underlying (heap s) a of None \<Rightarrow> None | Some (_, ob) \<Rightarrow> Some (typeString ob)))"

text \<open>\<open>str.slice(8, -1)\<close>.\<close>

definition slice_8_m1 :: "string \<Rightarrow> string" where
  "slice_8_m1 str = drop 8 (butlast str)"

section \<open>utils.ts\<close>

definition isObject :: "state \<Rightarrow> val \<Rightarrow> bool option" where
  "isObject s v =
     (case typeof s v of
        None \<Rightarrow> None
      | Some t \<Rightarrow> Some (v \<noteq> Null \<and> t = ''object''))"

definition toTypeString :: "state \<Rightarrow> val \<Rightarrow> string option" where
  "toTypeString s v = objectToString s v"

definition toRawType :: "state \<Rightarrow> val \<Rightarrow> string option" where
  "toRawType s v = map_option slice_8_m1 (toTypeString s v)"

text \<open>\<open>Object.is\<close> is equality of values in this representation.\<close>

definition hasChanged :: "val \<Rightarrow> val \<Rightarrow> bool" where
  "hasChanged v oldValue = (\<not> (v = oldValue))"

section \<open>The get traps, as far as the reactive flags go\<close>

text \<open>What a get trap does with a key: answer directly, or read the key from the target.\<close>

datatype trapped = Return val | FromTarget

text \<open>\<open>createInstrumentationGetter(isReadonly, shallow)\<close> of \<open>collectionHandlers.ts\<close>.\<close>

definition createInstrumentationGetter :: "bool \<Rightarrow> bool \<Rightarrow> addr \<Rightarrow> ReactiveFlags \<Rightarrow> trapped" where
  "createInstrumentationGetter isRO shallow target key =
     (if key = IS_REACTIVE then Return (Bool (\<not> isRO))
      else if key = IS_READONLY then Return (Bool isRO)
      else if key = RAW then Return (Obj target)
      else FromTarget)"

text \<open>
  Modelled from the spec: \<open>baseHandlers.ts\<close> (the handlers of plain objects and arrays)
  is not among the sources. The spec, section 4.6: the keys \<open>IS_REACTIVE\<close>,
  \<open>IS_READONLY\<close>, \<open>IS_SHALLOW\<close> and \<open>RAW\<close> are returned directly, to identify and
  unwrap proxies.
\<close>

definition baseGetter :: "bool \<Rightarrow> bool \<Rightarrow> addr \<Rightarrow> ReactiveFlags \<Rightarrow> trapped" where
  "baseGetter isRO shallow target key =
     (if key = IS_REACTIVE then Return (Bool (\<not> isRO))
      else if key = IS_READONLY then Return (Bool isRO)
      else if key = IS_SHALLOW then Return (Bool shallow)
      else if key = RAW then Return (Obj target)
      else FromTarget)"

definition handler_get :: "handlers \<Rightarrow> addr \<Rightarrow> ReactiveFlags \<Rightarrow> trapped" where
  "handler_get h target key =
     (case h of
        mutableHandlers \<Rightarrow> baseGetter False False target key
      | readonlyHandlers \<Rightarrow> baseGetter True False target key
      | mutableCollectionHandlers \<Rightarrow> createInstrumentationGetter False False target key
      | readonlyCollectionHandlers \<Rightarrow> createInstrumentationGetter True False target key)"

text \<open>\<open>obj[key]\<close> for an object at an address and a reactive flag key.\<close>

partial_function (option) getFlag :: "heap \<Rightarrow> addr \<Rightarrow> ReactiveFlags \<Rightarrow> val option" where
  "getFlag h a key =
     (case h a of
        None \<Rightarrow> None
      | Some (Ordinary ob) \<Rightarrow> Some (props ob key)
      | Some (ProxyOf t hs) \<Rightarrow>
          (case handler_get hs t key of
             Return v \<Rightarrow> Some v
           | FromTarget \<Rightarrow> getFlag h t key))"

text \<open>
  \<open>value[key]\<close> for any value: a \<open>TypeError\<close> (\<open>None\<close>) on \<open>undefined\<close> and \<open>null\<close>,
  \<open>undefined\<close> on the other primitives.
\<close>

definition getProp :: "state \<Rightarrow> val \<Rightarrow> ReactiveFlags \<Rightarrow> val option" where
  "getProp s v key =
     (case v of
        Undefined \<Rightarrow> None
      | Null \<Rightarrow> None
      | Obj a \<Rightarrow> getFlag (heap s) a key
      | _ \<Rightarrow> Some Undefined)"

section \<open>reactive.ts\<close>

datatype TargetType = INVALID | COMMON | COLLECTION

definition targetTypeMap :: "string \<Rightarrow> TargetType" where
  "targetTypeMap rawType =
     (if rawType = ''Object'' \<or> rawType = ''Array'' then COMMON
      else if rawType = ''Map'' \<or> rawType = ''Set'' \<or> rawType = ''WeakMap'' \<or> rawType = ''WeakSet''
      then COLLECTION
      else INVALID)"

definition getTargetType :: "state \<Rightarrow> val \<Rightarrow> TargetType option" where
  "getTargetType s v =
     (case getProp s v SKIP of
        None \<Rightarrow> None
      | Some skip \<Rightarrow>
          if truthy skip then Some INVALID
          else (case isExtensible s v of
                  None \<Rightarrow> None
                | Some ext \<Rightarrow>
                    if \<not> ext then Some INVALID
                    else map_option targetTypeMap (toRawType s v)))"

definition isReadonly :: "state \<Rightarrow> val \<Rightarrow> bool option" where
  "isReadonly s v =
     (if truthy v then map_option truthy (getProp s v IS_READONLY) else Some False)"

definition isShallow :: "state \<Rightarrow> val \<Rightarrow> bool option" where
  "isShallow s v =
     (if truthy v then map_option truthy (getProp s v IS_SHALLOW) else Some False)"

definition isProxy :: "state \<Rightarrow> val \<Rightarrow> bool option" where
  "isProxy s v =
     (if truthy v then map_option truthy (getProp s v RAW) else Some False)"

text \<open>
  \<open>createReactiveObject\<close>. The result is the returned value and the state after the
  call; \<open>None\<close> when the call throws.
\<close>

definition createReactiveObject ::
  "state \<Rightarrow> val \<Rightarrow> bool \<Rightarrow> handlers \<Rightarrow> handlers \<Rightarrow> proxyMap \<Rightarrow> (val \<times> state) option" where
  "createReactiveObject s target isRO baseHandlers collectionHandlers pm =
     (case isObject s target of
        None \<Rightarrow> None
      | Some False \<Rightarrow> Some (target, s)
      | Some True \<Rightarrow>
          (case getProp s target RAW of
             None \<Rightarrow> None
           | Some raw \<Rightarrow>
               (case (if truthy raw \<and> isRO then getProp s target IS_REACTIVE else Some Undefined) of
                  None \<Rightarrow> None
                | Some isReact \<Rightarrow>
                    if truthy raw \<and> \<not> (isRO \<and> truthy isReact) then Some (target, s)
                    else
                      (case getTargetType s target of
                         None \<Rightarrow> None
                       | Some targetType \<Rightarrow>
                           if targetType = INVALID then Some (target, s)
                           else
                             (case target of
                                Obj a \<Rightarrow>
                                  (case proxyMap_get s pm a of
                                     Some existingProxy \<Rightarrow> Some (Obj existingProxy, s)
                                   | None \<Rightarrow>
                                       (let (p, s') =
                                              newProxy s a
                                                (if targetType = COLLECTION then collectionHandlers
                                                 else baseHandlers)
                                        in Some (Obj p, proxyMap_set s' pm a p)))
                              | _ \<Rightarrow> None)))))"

definition reactive :: "state \<Rightarrow> val \<Rightarrow> (val \<times> state) option" where
  "reactive s target =
     (case isReadonly s target of
        None \<Rightarrow> None
      | Some True \<Rightarrow> Some (target, s)
      | Some False \<Rightarrow>
          createReactiveObject s target False mutableHandlers mutableCollectionHandlers ReactiveMap)"

definition readonly :: "state \<Rightarrow> val \<Rightarrow> (val \<times> state) option" where
  "readonly s target =
     createReactiveObject s target True readonlyHandlers readonlyCollectionHandlers ReadonlyMap"

partial_function (option) toRaw :: "state \<Rightarrow> val \<Rightarrow> val option" where
  "toRaw s observed =
     (if truthy observed then
        (case getProp s observed RAW of
           None \<Rightarrow> None
         | Some raw \<Rightarrow> if truthy raw then toRaw s raw else Some observed)
      else Some observed)"

section \<open>Native collections\<close>

text \<open>
  SameValueZero, the key comparison of \<open>Map\<close> and \<open>Set\<close>: \<open>Object.is\<close>, except that
  \<open>-0\<close> and \<open>+0\<close> are the same key.
\<close>

definition normZero :: "val \<Rightarrow> val" where
  "normZero v = (if v = Number NegZero then Number (Fin 0) else v)"

definition sameValueZero :: "val \<Rightarrow> val \<Rightarrow> bool" where
  "sameValueZero x y = (normZero x = normZero y)"

text \<open>\<open>x === y\<close>.\<close>

definition strictEquals :: "val \<Rightarrow> val \<Rightarrow> bool" where
  "strictEquals x y = (x \<noteq> Number NaN \<and> y \<noteq> Number NaN \<and> sameValueZero x y)"

text \<open>
  \<open>CanBeHeldWeakly\<close>, the keys a weak collection can hold: objects, and symbols that
  are not in the global registry.
\<close>

definition canBeHeldWeakly :: "val \<Rightarrow> bool" where
  "canBeHeldWeakly v =
     (case v of
        Obj _ \<Rightarrow> True
      | Sym (Unique _) \<Rightarrow> True
      | _ \<Rightarrow> False)"

fun entry_has :: "(val \<times> val) list \<Rightarrow> val \<Rightarrow> bool" where
  "entry_has [] k = False"
| "entry_has ((k', v') # es) k = (if sameValueZero k' k then True else entry_has es k)"

fun entry_get :: "(val \<times> val) list \<Rightarrow> val \<Rightarrow> val" where
  "entry_get [] k = Undefined"
| "entry_get ((k', v') # es) k = (if sameValueZero k' k then v' else entry_get es k)"

fun entry_set :: "(val \<times> val) list \<Rightarrow> val \<Rightarrow> val \<Rightarrow> (val \<times> val) list" where
  "entry_set [] k v = [(normZero k, v)]"
| "entry_set ((k', v') # es) k v =
     (if sameValueZero k' k then (k', v) # es else (k', v') # entry_set es k v)"

fun entry_delete :: "(val \<times> val) list \<Rightarrow> val \<Rightarrow> (val \<times> val) list" where
  "entry_delete [] k = []"
| "entry_delete ((k', v') # es) k =
     (if sameValueZero k' k then es else (k', v') # entry_delete es k)"

fun elem_has :: "val list \<Rightarrow> val \<Rightarrow> bool" where
  "elem_has [] v = False"
| "elem_has (x # xs) v = (if sameValueZero x v then True else elem_has xs v)"

fun elem_add :: "val list \<Rightarrow> val \<Rightarrow> val list" where
  "elem_add [] v = [normZero v]"
| "elem_add (x # xs) v = (if sameValueZero x v then x # xs else x # elem_add xs v)"

fun elem_delete :: "val list \<Rightarrow> val \<Rightarrow> val list" where
  "elem_delete [] v = []"
| "elem_delete (x # xs) v = (if sameValueZero x v then xs else x # elem_delete xs v)"

text \<open>
  The methods of \<open>Map.prototype\<close>, \<open>Set.prototype\<close> and their weak variants, called
  on an object with the given slot. \<open>None\<close> is the \<open>TypeError\<close> of a receiver without
  the slot, of a method the prototype does not have, and of a weak collection given a
  key it cannot hold.
\<close>

definition native_has :: "slots \<Rightarrow> val \<Rightarrow> bool option" where
  "native_has sl k =
     (case sl of
        NoSlots \<Rightarrow> None
      | MapData w es \<Rightarrow> Some (if w \<and> \<not> canBeHeldWeakly k then False else entry_has es k)
      | SetData w xs \<Rightarrow> Some (if w \<and> \<not> canBeHeldWeakly k then False else elem_has xs k))"

definition native_get :: "slots \<Rightarrow> val \<Rightarrow> val option" where
  "native_get sl k =
     (case sl of
        MapData w es \<Rightarrow> Some (if w \<and> \<not> canBeHeldWeakly k then Undefined else entry_get es k)
      | _ \<Rightarrow> None)"

definition native_set :: "slots \<Rightarrow> val \<Rightarrow> val \<Rightarrow> slots option" where
  "native_set sl k v =
     (case sl of
        MapData w es \<Rightarrow>
          if w \<and> \<not> canBeHeldWeakly k then None else Some (MapData w (entry_set es k v))
      | _ \<Rightarrow> None)"

definition native_add :: "slots \<Rightarrow> val \<Rightarrow> slots option" where
  "native_add sl v =
     (case sl of
        SetData w xs \<Rightarrow>
          if w \<and> \<not> canBeHeldWeakly v then None else Some (SetData w (elem_add xs v))
      | _ \<Rightarrow> None)"

definition native_delete :: "slots \<Rightarrow> val \<Rightarrow> (bool \<times> slots) option" where
  "native_delete sl k =
     (case sl of
        NoSlots \<Rightarrow> None
      | MapData w es \<Rightarrow>
          if w \<and> \<not> canBeHeldWeakly k then Some (False, sl)
          else Some (entry_has es k, MapData w (entry_delete es k))
      | SetData w xs \<Rightarrow>
          if w \<and> \<not> canBeHeldWeakly k then Some (False, sl)
          else Some (elem_has xs k, SetData w (elem_delete xs k)))"

definition native_clear :: "slots \<Rightarrow> slots option" where
  "native_clear sl =
     (case sl of
        MapData w es \<Rightarrow> if w then None else Some (MapData w [])
      | SetData w xs \<Rightarrow> if w then None else Some (SetData w [])
      | NoSlots \<Rightarrow> None)"

text \<open>\<open>target.size\<close>: \<open>undefined\<close> where there is no such property.\<close>

definition native_size :: "slots \<Rightarrow> val" where
  "native_size sl =
     (case sl of
        MapData w es \<Rightarrow> if w then Undefined else Number (Fin (int (length es)))
      | SetData w xs \<Rightarrow> if w then Undefined else Number (Fin (int (length xs)))
      | NoSlots \<Rightarrow> Undefined)"

text \<open>The slot of the object a value refers to; no proxy and no primitive has one.\<close>

definition slotsOf :: "state \<Rightarrow> val \<Rightarrow> slots option" where
  "slotsOf s v =
     (case v of
        Obj a \<Rightarrow> (case heap s a of Some (Ordinary ob) \<Rightarrow> Some (slots ob) | _ \<Rightarrow> None)
      | _ \<Rightarrow> None)"

definition setSlots :: "state \<Rightarrow> val \<Rightarrow> slots \<Rightarrow> state" where
  "setSlots s v sl =
     (case v of
        Obj a \<Rightarrow>
          (case heap s a of
             Some (Ordinary ob) \<Rightarrow> s\<lparr>heap := (heap s)(a \<mapsto> Ordinary (ob\<lparr>slots := sl\<rparr>))\<rparr>
           | _ \<Rightarrow> s)
      | _ \<Rightarrow> s)"

section \<open>collectionHandlers.ts\<close>

text \<open>
  Modelled from the spec: \<open>dep.ts\<close> is not among the sources. The spec, section 4.1:
  \<open>trigger\<close> looks up the deps of the target and key and notifies their subscribers.
  What is kept of a call here is that it was made, its arguments, and the store the
  notified subscribers see.
\<close>

definition trigger :: "state \<Rightarrow> val \<Rightarrow> TriggerOpTypes \<Rightarrow> val \<Rightarrow> val \<Rightarrow> state" where
  "trigger s target type key newValue =
     s\<lparr>triggered := triggered s @ [(Trigger target type key newValue, heap s)]\<rparr>"

text \<open>The result of \<open>createReadonlyMethod(type)\<close>, called on \<open>this\<close> with arguments.\<close>

definition createReadonlyMethod :: "TriggerOpTypes \<Rightarrow> val \<Rightarrow> val list \<Rightarrow> val" where
  "createReadonlyMethod type this args =
     (if type = DELETE then Bool False
      else if type = CLEAR then Undefined
      else this)"

text \<open>
  The first statement of the instrumented \<open>add\<close> and \<open>set\<close>:
  \<open>if (!shallow && !isShallow(value) && !isReadonly(value)) value = toRaw(value)\<close>.
\<close>

definition unwrapValue :: "bool \<Rightarrow> state \<Rightarrow> val \<Rightarrow> val option" where
  "unwrapValue shallow s v =
     (if shallow then Some v
      else (case isShallow s v of
              None \<Rightarrow> None
            | Some True \<Rightarrow> Some v
            | Some False \<Rightarrow>
                (case isReadonly s v of
                   None \<Rightarrow> None
                 | Some True \<Rightarrow> Some v
                 | Some False \<Rightarrow> toRaw s v)))"

text \<open>
  The lookup shared by the instrumented \<open>set\<close> and \<open>delete\<close>: the key as given, or
  else its raw form; the result is the key used from there on and \<open>hadKey\<close>.
\<close>

definition findKey :: "state \<Rightarrow> slots \<Rightarrow> val \<Rightarrow> (val \<times> bool) option" where
  "findKey s sl key =
     (case native_has sl key of
        None \<Rightarrow> None
      | Some True \<Rightarrow> Some (key, True)
      | Some False \<Rightarrow>
          (case toRaw s key of
             None \<Rightarrow> None
           | Some rawKey \<Rightarrow> map_option (Pair rawKey) (native_has sl rawKey)))"

definition add_instr :: "bool \<Rightarrow> state \<Rightarrow> val \<Rightarrow> val \<Rightarrow> (val \<times> state) option" where
  "add_instr shallow s this value0 =
     (case unwrapValue shallow s value0 of
        None \<Rightarrow> None
      | Some v \<Rightarrow>
     (case toRaw s this of
        None \<Rightarrow> None
      | Some target \<Rightarrow>
     (case slotsOf s target of
        None \<Rightarrow> None
      | Some sl \<Rightarrow>
     (case native_has sl v of
        None \<Rightarrow> None
      | Some True \<Rightarrow> Some (this, s)
      | Some False \<Rightarrow>
          (case native_add sl v of
             None \<Rightarrow> None
           | Some sl' \<Rightarrow> Some (this, trigger (setSlots s target sl') target ADD v v))))))"

definition set_instr :: "bool \<Rightarrow> state \<Rightarrow> val \<Rightarrow> val \<Rightarrow> val \<Rightarrow> (val \<times> state) option" where
  "set_instr shallow s this key0 value0 =
     (case unwrapValue shallow s value0 of
        None \<Rightarrow> None
      | Some v \<Rightarrow>
     (case toRaw s this of
        None \<Rightarrow> None
      | Some target \<Rightarrow>
     (case slotsOf s target of
        None \<Rightarrow> None
      | Some sl \<Rightarrow>
     (case findKey s sl key0 of
        None \<Rightarrow> None
      | Some (key, hadKey) \<Rightarrow>
     (case native_get sl key of
        None \<Rightarrow> None
      | Some oldValue \<Rightarrow>
     (case native_set sl key v of
        None \<Rightarrow> None
      | Some sl' \<Rightarrow>
          (let s1 = setSlots s target sl'
           in Some (this,
                if \<not> hadKey then trigger s1 target ADD key v
                else if hasChanged v oldValue then trigger s1 target SET key v
                else s1))))))))"

definition delete_instr :: "state \<Rightarrow> val \<Rightarrow> val \<Rightarrow> (val \<times> state) option" where
  "delete_instr s this key0 =
     (case toRaw s this of
        None \<Rightarrow> None
      | Some target \<Rightarrow>
     (case slotsOf s target of
        None \<Rightarrow> None
      | Some sl \<Rightarrow>
     (case findKey s sl key0 of
        None \<Rightarrow> None
      | Some (key, hadKey) \<Rightarrow>
     (case native_delete sl key of
        None \<Rightarrow> None
      | Some (result, sl') \<Rightarrow>
          (let s1 = setSlots s target sl'
           in Some (Bool result,
                if hadKey then trigger s1 target DELETE key Undefined else s1))))))"

definition clear_instr :: "state \<Rightarrow> val \<Rightarrow> (val \<times> state) option" where
  "clear_instr s this =
     (case toRaw s this of
        None \<Rightarrow> None
      | Some target \<Rightarrow>
     (case slotsOf s target of
        None \<Rightarrow> None
      | Some sl \<Rightarrow>
          (let hadItems = \<not> strictEquals (native_size sl) (Number (Fin 0))
           in (case native_clear sl of
                 None \<Rightarrow> None
               | Some sl' \<Rightarrow>
                   (let s1 = setSlots s target sl'
                    in Some (Undefined,
                         if hadItems then trigger s1 target CLEAR Undefined Undefined
                         else s1))))))"

text \<open>The four writing methods, by their property key.\<close>

datatype write_method = M_add | M_set | M_delete | M_clear

definition opType :: "write_method \<Rightarrow> TriggerOpTypes" where
  "opType m = (case m of M_add \<Rightarrow> ADD | M_set \<Rightarrow> SET | M_delete \<Rightarrow> DELETE | M_clear \<Rightarrow> CLEAR)"

text \<open>The \<open>i\<close>-th argument of a call; \<open>undefined\<close> when it was not passed.\<close>

definition arg :: "val list \<Rightarrow> nat \<Rightarrow> val" where
  "arg args i = (if i < length args then args ! i else Undefined)"

text \<open>
  \<open>createInstrumentations(readonly, shallow)\<close>, as far as the writing methods go: the
  method installed under a key, called on \<open>this\<close> with arguments.
\<close>

definition createInstrumentations ::
  "bool \<Rightarrow> bool \<Rightarrow> write_method \<Rightarrow> state \<Rightarrow> val \<Rightarrow> val list \<Rightarrow> (val \<times> state) option" where
  "createInstrumentations ro shallow m s this args =
     (if ro then Some (createReadonlyMethod (opType m) this args, s)
      else (case m of
              M_add \<Rightarrow> add_instr shallow s this (arg args 0)
            | M_set \<Rightarrow> set_instr shallow s this (arg args 0) (arg args 1)
            | M_delete \<Rightarrow> delete_instr s this (arg args 0)
            | M_clear \<Rightarrow> clear_instr s this))"

text \<open>\<open>key in target\<close> for a method key, on an object with the given slot.\<close>

definition keyIn :: "slots \<Rightarrow> write_method \<Rightarrow> bool" where
  "keyIn sl m =
     (case sl of
        NoSlots \<Rightarrow> False
      | MapData w _ \<Rightarrow> m = M_set \<or> m = M_delete \<or> (m = M_clear \<and> \<not> w)
      | SetData w _ \<Rightarrow> m = M_add \<or> m = M_delete \<or> (m = M_clear \<and> \<not> w))"

text \<open>
  The call \<open>proxy.method(...args)\<close> on a collection proxy: the get trap of
  \<open>createInstrumentationGetter\<close> picks the instrumented method when the key is in the
  target, and the method is called on the proxy. Where the key is not in the target the
  trap reads the key from the target, finds nothing, and the call is a \<open>TypeError\<close>.
\<close>

definition callMethod :: "state \<Rightarrow> val \<Rightarrow> write_method \<Rightarrow> val list \<Rightarrow> (val \<times> state) option" where
  "callMethod s recv m args =
     (case recv of
        Obj p \<Rightarrow>
          (case heap s p of
             Some (ProxyOf t hs) \<Rightarrow>
               (case underlying (heap s) t of
                  None \<Rightarrow> None
                | Some (_, ob) \<Rightarrow>
                    if keyIn (slots ob) m then
                      (case hs of
                         mutableCollectionHandlers \<Rightarrow> createInstrumentations False False m s recv args
                       | readonlyCollectionHandlers \<Rightarrow> createInstrumentations True False m s recv args
                       | _ \<Rightarrow> None)
                    else None)
           | _ \<Rightarrow> None)
      | _ \<Rightarrow> None)"

section \<open>Well-formed states\<close>

text \<open>
  The states the module can be in: addresses are handed out in order, a proxy is
  younger than its target, and each cache maps a target to a proxy of that target with
  the handlers of the cache's flavour.
\<close>

definition wf :: "state \<Rightarrow> bool" where
  "wf s \<longleftrightarrow>
     (\<forall>a. heap s a \<noteq> None \<longleftrightarrow> a < nxt s) \<and>
     (\<forall>a t h. heap s a = Some (ProxyOf t h) \<longrightarrow> t < a) \<and>
     (\<forall>a p. reactiveMap s a = Some p \<longrightarrow>
        heap s p = Some (ProxyOf a mutableHandlers) \<or>
        heap s p = Some (ProxyOf a mutableCollectionHandlers)) \<and>
     (\<forall>a p. readonlyMap s a = Some p \<longrightarrow>
        heap s p = Some (ProxyOf a readonlyHandlers) \<or>
        heap s p = Some (ProxyOf a readonlyCollectionHandlers))"

text \<open>A value of the program refers to an object that exists.\<close>

definition allocated :: "state \<Rightarrow> val \<Rightarrow> bool" where
  "allocated s v = (case v of Obj a \<Rightarrow> a < nxt s | _ \<Rightarrow> True)"

text \<open>The state of a freshly loaded module, over a store of ordinary objects.\<close>

definition init :: "object list \<Rightarrow> state" where
  "init obs =
     \<lparr>heap = (\<lambda>a. if a < length obs then Some (Ordinary (obs ! a)) else None),
      nxt = length obs,
      reactiveMap = (\<lambda>_. None),
      readonlyMap = (\<lambda>_. None),
      triggered = []\<rparr>"

text \<open>
  An object is accepted for proxying by \<open>reactive\<close> when no guard of \<open>reactive\<close>
  and \<open>createReactiveObject\<close> hands it back: it is an object, it is not readonly, it
  is not a proxy already, and its target type is not \<open>INVALID\<close>.
\<close>

definition accepted :: "state \<Rightarrow> addr \<Rightarrow> bool" where
  "accepted s a \<longleftrightarrow>
     isObject s (Obj a) = Some True \<and>
     isReadonly s (Obj a) = Some False \<and>
     isProxy s (Obj a) = Some False \<and>
     (getTargetType s (Obj a) = Some COMMON \<or> getTargetType s (Obj a) = Some COLLECTION)"

text \<open>What the guards of \<open>getTargetType\<close> ask of an ordinary object.\<close>

definition observable :: "object \<Rightarrow> bool" where
  "observable ob \<longleftrightarrow>
     \<not> callable ob \<and> extensible ob \<and> \<not> truthy (props ob SKIP) \<and>
     slice_8_m1 (typeString ob) \<in> {''Object'', ''Array'', ''Map'', ''Set'', ''WeakMap'', ''WeakSet''}"

text \<open>The handlers \<open>createReactiveObject\<close> picks for an ordinary target.\<close>

definition mutableFor :: "object \<Rightarrow> handlers" where
  "mutableFor ob =
     (if targetTypeMap (slice_8_m1 (typeString ob)) = COLLECTION then mutableCollectionHandlers
      else mutableHandlers)"

definition readonlyFor :: "object \<Rightarrow> handlers" where
  "readonlyFor ob =
     (if targetTypeMap (slice_8_m1 (typeString ob)) = COLLECTION then readonlyCollectionHandlers
      else readonlyHandlers)"

section \<open>computed.ts\<close>

text \<open>
  A \<open>ComputedRefImpl\<close>. The dep, the links and the next subscriber are objects of
  \<open>dep.ts\<close> and \<open>effect.ts\<close> and are named by their addresses; the getter and the
  setter are user functions and are named by identifiers.
\<close>

type_synonym fid = nat

record ComputedRefImpl =
  cr_value :: val
  cr_dep :: addr
  cr_isRef :: bool
  cr_isReadonly :: bool
  cr_deps :: "addr option"
  cr_depsTail :: "addr option"
  cr_flags :: nat
  cr_globalVersion :: int
  cr_next :: "addr option"
  cr_fn :: fid
  cr_setter :: "fid option"

text \<open>
  The constructor with the field initialisers. \<open>new Dep(this)\<close>, \<open>EffectFlags.DIRTY\<close>
  and the module's \<open>globalVersion\<close> come from files that are not among the sources
  and are parameters. \<open>!setter\<close> is true exactly when no setter was passed: a
  function is truthy.
\<close>

definition ComputedRefImpl_new :: "addr \<Rightarrow> nat \<Rightarrow> int \<Rightarrow> fid \<Rightarrow> fid option \<Rightarrow> ComputedRefImpl" where
  "ComputedRefImpl_new newDep DIRTY globalVersion fn setter =
     \<lparr>cr_value = Undefined,
      cr_dep = newDep,
      cr_isRef = True,
      cr_isReadonly = (setter = None),
      cr_deps = None,
      cr_depsTail = None,
      cr_flags = DIRTY,
      cr_globalVersion = globalVersion - 1,
      cr_next = None,
      cr_fn = fn,
      cr_setter = setter\<rparr>"

text \<open>
  \<open>set value(newValue)\<close>. The program state \<open>'w\<close> holds everything a user function
  can reach, the computed itself included; \<open>call f x\<close> is what calling the user
  function \<open>f\<close> on \<open>x\<close> does to it.
\<close>

definition set_value :: "(fid \<Rightarrow> val \<Rightarrow> 'w \<Rightarrow> 'w) \<Rightarrow> ComputedRefImpl \<Rightarrow> val \<Rightarrow> 'w \<Rightarrow> 'w" where
  "set_value call this newValue w =
     (case cr_setter this of
        Some setter \<Rightarrow> call setter newValue w
      | None \<Rightarrow> w)"

text \<open>A computed as \<open>reactive.ts\<close> sees it: an extensible object of class \<open>Object\<close>.\<close>

definition computedObject :: "ComputedRefImpl \<Rightarrow> object" where
  "computedObject c =
     \<lparr>typeString = ''[object Object]'',
      extensible = True,
      callable = False,
      props = (\<lambda>k. if k = IS_READONLY then Bool (cr_isReadonly c)
                   else if k = IS_REF then Bool (cr_isRef c)
                   else Undefined),
      slots = NoSlots\<rparr>"

section \<open>effectScope.ts\<close>

text \<open>
  An \<open>EffectScope\<close>. Effects and cleanup callbacks are named by identifiers. The
  child array can have holes (\<open>None\<close>), as a JavaScript array written past its end
  has.
\<close>

record scope =
  active :: bool
  on_count :: nat
  effects :: "nat list"
  cleanups :: "nat list"
  isPaused :: bool
  parent :: "addr option"
  scopes :: "addr option list option"
  index :: "nat option"
  detached :: bool
  prevScope :: "addr option"

text \<open>
  A call made by \<open>stop\<close> into code that is not this class's: \<open>effects[i].stop()\<close> and
  \<open>cleanups[i]()\<close>, with the scope that made it.
\<close>

datatype scope_event = EffectStop addr nat | CleanupRun addr nat

text \<open>
  The scopes, by address; the module variable \<open>activeEffectScope\<close>; the calls made
  so far.
\<close>

record scope_state =
  store :: "scope list"
  activeEffectScope :: "addr option"
  trace :: "scope_event list"

definition lookup :: "scope_state \<Rightarrow> addr \<Rightarrow> scope option" where
  "lookup s a = (if a < length (store s) then Some (store s ! a) else None)"

definition update :: "scope_state \<Rightarrow> addr \<Rightarrow> (scope \<Rightarrow> scope) \<Rightarrow> scope_state" where
  "update s a f = s\<lparr>store := (store s)[a := f (store s ! a)]\<rparr>"

text \<open>
  The constructor, \<open>new EffectScope(detached)\<close>: the fields take their initial values,
  \<open>parent\<close> is the current scope and, unless the scope is detached or there is no
  current scope, the scope is pushed on the parent's array, which is created when
  missing, and records the index it got. The new scope's address is returned with the
  state.
\<close>

definition EffectScope_new :: "scope_state \<Rightarrow> bool \<Rightarrow> addr \<times> scope_state" where
  "EffectScope_new s isDetached =
     (let this = length (store s);
          s1 = s\<lparr>store := store s @
                 [\<lparr>active = True, on_count = 0, effects = [], cleanups = [], isPaused = False,
                   parent = activeEffectScope s, scopes = None, index = None,
                   detached = isDetached, prevScope = None\<rparr>]\<rparr>
      in (case activeEffectScope s of
            Some p \<Rightarrow>
              if \<not> isDetached then
                (let ps = (case scopes (store s1 ! p) of None \<Rightarrow> [] | Some ps \<Rightarrow> ps);
                     s2 = update s1 p (\<lambda>x. x\<lparr>scopes := Some (ps @ [Some this])\<rparr>)
                 in (this, update s2 this (\<lambda>x. x\<lparr>index := Some (length ps)\<rparr>)))
              else (this, s1)
          | None \<Rightarrow> (this, s1)))"

text \<open>
  \<open>run(fn)\<close>. The function \<open>fn\<close> is user code: from a state it throws (\<open>Inl\<close>) or
  returns (\<open>Inr\<close>), and leaves a state. The result of \<open>run\<close> is what is thrown, or
  what is returned: \<open>None\<close> for \<open>undefined\<close>.
\<close>

definition run ::
  "scope_state \<Rightarrow> addr \<Rightarrow> (scope_state \<Rightarrow> ('e + 'r) \<times> scope_state) \<Rightarrow>
   (('e + 'r option) \<times> scope_state) option" where
  "run s this fn =
     (case lookup s this of
        None \<Rightarrow> None
      | Some sc \<Rightarrow>
          if active sc then
            (let currentEffectScope = activeEffectScope s;
                 (r, s') = fn (s\<lparr>activeEffectScope := Some this\<rparr>)
             in Some (map_sum id Some r, s'\<lparr>activeEffectScope := currentEffectScope\<rparr>))
          else Some (Inr None, s))"

text \<open>
  What a call comes to: it returns or it throws, and it leaves a state. \<open>TypeError\<close> is
  what the language throws on a call of \<open>undefined\<close> and on a property access of
  \<open>undefined\<close>; \<open>Thrown\<close> is what a callback throws.
\<close>

datatype exn = TypeError | Thrown nat

type_synonym outcome = "exn option \<times> scope_state"

text \<open>
  \<open>effects[i].stop()\<close> is code of \<open>effect.ts\<close>, which is not among the sources, and
  \<open>cleanups[i]()\<close> is a callback of the user. What they do is a parameter of \<open>stop\<close>:
  called in a state, a callback returns or throws and leaves a state, or it does not
  return (\<open>None\<close>). A callback can so stop a scope, make one, or change an array that
  \<open>stop\<close> is walking.
\<close>

record callbacks =
  effect_stop :: "nat \<Rightarrow> scope_state \<Rightarrow> outcome option"
  cleanup :: "nat \<Rightarrow> scope_state \<Rightarrow> outcome option"

text \<open>
  One statement after another: the second runs in the state the first left, when the
  first returned.
\<close>

definition andThen :: "outcome option \<Rightarrow> (scope_state \<Rightarrow> outcome option) \<Rightarrow> outcome option" where
  "andThen r f =
     (case r of
        None \<Rightarrow> None
      | Some (Some x, s) \<Rightarrow> Some (Some x, s)
      | Some (None, s) \<Rightarrow> f s)"

text \<open>
  The first loop, \<open>for (i = 0, l = this.effects.length; i < l; i++)
  this.effects[i].stop()\<close>, from index \<open>i\<close> with \<open>k\<close> rounds to go. The array is read
  anew in each round; past its end the element is \<open>undefined\<close> and the call a
  \<open>TypeError\<close>. A call is recorded when it is made.
\<close>

primrec effectsLoop :: "callbacks \<Rightarrow> scope_state \<Rightarrow> addr \<Rightarrow> nat \<Rightarrow> nat \<Rightarrow> outcome option" where
  "effectsLoop cb s this i 0 = Some (None, s)"
| "effectsLoop cb s this i (Suc k) =
     (case lookup s this of
        None \<Rightarrow> None
      | Some sc \<Rightarrow>
          if i < length (effects sc) then
            (case effect_stop cb (effects sc ! i)
                    (s\<lparr>trace := trace s @ [EffectStop this (effects sc ! i)]\<rparr>) of
               None \<Rightarrow> None
             | Some (Some x, s') \<Rightarrow> Some (Some x, s')
             | Some (None, s') \<Rightarrow> effectsLoop cb s' this (Suc i) k)
          else Some (Some TypeError, s))"

text \<open>The first loop and \<open>this.effects.length = 0\<close>.\<close>

definition stopEffects :: "callbacks \<Rightarrow> scope_state \<Rightarrow> addr \<Rightarrow> outcome option" where
  "stopEffects cb s this =
     (case lookup s this of
        None \<Rightarrow> None
      | Some sc \<Rightarrow>
          andThen (effectsLoop cb s this 0 (length (effects sc)))
            (\<lambda>s'. Some (None, update s' this (\<lambda>x. x\<lparr>effects := []\<rparr>))))"

text \<open>
  The second loop, \<open>for (i = 0, l = this.cleanups.length; i < l; i++)
  this.cleanups[i]()\<close>, in the same way.
\<close>

primrec cleanupsLoop :: "callbacks \<Rightarrow> scope_state \<Rightarrow> addr \<Rightarrow> nat \<Rightarrow> nat \<Rightarrow> outcome option" where
  "cleanupsLoop cb s this i 0 = Some (None, s)"
| "cleanupsLoop cb s this i (Suc k) =
     (case lookup s this of
        None \<Rightarrow> None
      | Some sc \<Rightarrow>
          if i < length (cleanups sc) then
            (case cleanup cb (cleanups sc ! i)
                    (s\<lparr>trace := trace s @ [CleanupRun this (cleanups sc ! i)]\<rparr>) of
               None \<Rightarrow> None
             | Some (Some x, s') \<Rightarrow> Some (Some x, s')
             | Some (None, s') \<Rightarrow> cleanupsLoop cb s' this (Suc i) k)
          else Some (Some TypeError, s))"

text \<open>The second loop and \<open>this.cleanups.length = 0\<close>.\<close>

definition runCleanups :: "callbacks \<Rightarrow> scope_state \<Rightarrow> addr \<Rightarrow> outcome option" where
  "runCleanups cb s this =
     (case lookup s this of
        None \<Rightarrow> None
      | Some sc \<Rightarrow>
          andThen (cleanupsLoop cb s this 0 (length (cleanups sc)))
            (\<lambda>s'. Some (None, update s' this (\<lambda>x. x\<lparr>cleanups := []\<rparr>))))"

text \<open>
  The third loop, \<open>for (i = 0, l = this.scopes.length; i < l; i++)
  this.scopes[i].stop(true)\<close>, from index \<open>i\<close> with \<open>k\<close> rounds to go. The array is read
  anew in each round; on a hole, past the end, and when the array is gone, the call is a
  \<open>TypeError\<close>.
\<close>

primrec stopChildren ::
  "(scope_state \<Rightarrow> addr \<Rightarrow> outcome option) \<Rightarrow> scope_state \<Rightarrow> addr \<Rightarrow> nat \<Rightarrow> nat \<Rightarrow>
   outcome option" where
  "stopChildren stopChild s this i 0 = Some (None, s)"
| "stopChildren stopChild s this i (Suc k) =
     (case lookup s this of
        None \<Rightarrow> None
      | Some sc \<Rightarrow>
          (case scopes sc of
             None \<Rightarrow> Some (Some TypeError, s)
           | Some ch \<Rightarrow>
               if i < length ch then
                 (case ch ! i of
                    None \<Rightarrow> Some (Some TypeError, s)
                  | Some c \<Rightarrow>
                      (case stopChild s c of
                         None \<Rightarrow> None
                       | Some (Some x, s') \<Rightarrow> Some (Some x, s')
                       | Some (None, s') \<Rightarrow> stopChildren stopChild s' this (Suc i) k))
               else Some (Some TypeError, s)))"

text \<open>
  \<open>if (this.scopes) { ... this.scopes.length = 0 }\<close>: the third loop, when there is an
  array, and the emptying of the array that is there after it.
\<close>

definition stopScopes ::
  "(scope_state \<Rightarrow> addr \<Rightarrow> outcome option) \<Rightarrow> scope_state \<Rightarrow> addr \<Rightarrow> outcome option" where
  "stopScopes stopChild s this =
     (case lookup s this of
        None \<Rightarrow> None
      | Some sc \<Rightarrow>
          (case scopes sc of
             None \<Rightarrow> Some (None, s)
           | Some ch \<Rightarrow>
               andThen (stopChildren stopChild s this 0 (length ch))
                 (\<lambda>s'. case lookup s' this of
                         None \<Rightarrow> None
                       | Some sc' \<Rightarrow>
                           (case scopes sc' of
                              None \<Rightarrow> Some (Some TypeError, s')
                            | Some _ \<Rightarrow>
                                Some (None, update s' this (\<lambda>x. x\<lparr>scopes := Some []\<rparr>))))))"

text \<open>
  The last block of \<open>stop\<close>: \<open>pop\<close> the parent's array and, when the popped scope is
  another one, put it at this scope's recorded index and give it that index. An
  assignment past the end of the array extends it, leaving holes; one at the index
  \<open>undefined\<close> leaves the elements as they are. A parent without an array is a
  \<open>TypeError\<close>.
\<close>

definition assignAt :: "addr option list \<Rightarrow> nat \<Rightarrow> addr \<Rightarrow> addr option list" where
  "assignAt xs i v =
     (if i < length xs then xs[i := Some v]
      else xs @ replicate (i - length xs) None @ [Some v])"

definition unlink :: "scope_state \<Rightarrow> addr \<Rightarrow> bool \<Rightarrow> outcome option" where
  "unlink s this fromParent =
     (case lookup s this of
        None \<Rightarrow> None
      | Some sc \<Rightarrow>
          (case parent sc of
             None \<Rightarrow> Some (None, s)
           | Some p \<Rightarrow>
               if \<not> detached sc \<and> \<not> fromParent then
                 (case lookup s p of
                    None \<Rightarrow> None
                  | Some psc \<Rightarrow>
                      (case scopes psc of
                         None \<Rightarrow> Some (Some TypeError, s)
                       | Some ps \<Rightarrow>
                           if ps = [] then Some (None, s)
                           else
                             (let s1 = update s p (\<lambda>x. x\<lparr>scopes := Some (butlast ps)\<rparr>)
                              in (case last ps of
                                    None \<Rightarrow> Some (None, s1)
                                  | Some l \<Rightarrow>
                                      if l \<noteq> this then
                                        (case lookup s1 l of
                                           None \<Rightarrow> None
                                         | Some _ \<Rightarrow>
                                             Some (None, update
                                               (case index sc of
                                                  None \<Rightarrow> s1
                                                | Some i \<Rightarrow>
                                                    update s1 p
                                                      (\<lambda>x. x\<lparr>scopes := Some (assignAt (butlast ps) i l)\<rparr>))
                                               l (\<lambda>x. x\<lparr>index := index sc\<rparr>)))
                                      else Some (None, s1)))))
               else Some (None, s)))"

text \<open>
  \<open>stop(fromParent)\<close>, with a bound \<open>n\<close> on the depth of the calls of \<open>stop(true)\<close>.
  The result is \<open>None\<close> when the bound is reached, when a callback does not return, and
  when a scope that is named does not exist.
\<close>

fun stopN :: "callbacks \<Rightarrow> nat \<Rightarrow> scope_state \<Rightarrow> addr \<Rightarrow> bool \<Rightarrow> outcome option" where
  "stopN cb 0 s this fromParent = None"
| "stopN cb (Suc n) s this fromParent =
     (case lookup s this of
        None \<Rightarrow> None
      | Some sc \<Rightarrow>
          if active sc then
            andThen (stopEffects cb (update s this (\<lambda>x. x\<lparr>active := False\<rparr>)) this)
              (\<lambda>s2. andThen (runCleanups cb s2 this)
              (\<lambda>s3. andThen (stopScopes (\<lambda>s' c. stopN cb n s' c True) s3 this)
              (\<lambda>s5. andThen (unlink s5 this fromParent)
              (\<lambda>s6. Some (None, update s6 this (\<lambda>x. x\<lparr>parent := None\<rparr>))))))
          else Some (None, s))"

text \<open>
  \<open>stop(fromParent)\<close>. The bound is the number of scopes: while the callbacks leave the
  scopes alone, a chain of calls of \<open>stop(true)\<close> goes down a tree and is no longer.
\<close>

definition stop :: "callbacks \<Rightarrow> scope_state \<Rightarrow> addr \<Rightarrow> bool \<Rightarrow> outcome option" where
  "stop cb s this fromParent = stopN cb (Suc (length (store s))) s this fromParent"

text \<open>The scope an event was recorded for; the events of one scope, in call order.\<close>

fun scope_of :: "scope_event \<Rightarrow> addr" where
  "scope_of (EffectStop a _) = a"
| "scope_of (CleanupRun a _) = a"

definition own_events :: "scope \<Rightarrow> addr \<Rightarrow> scope_event list" where
  "own_events sc a = map (EffectStop a) (effects sc) @ map (CleanupRun a) (cleanups sc)"

text \<open>The child array of a scope; empty when it was never assigned.\<close>

definition children :: "scope \<Rightarrow> addr option list" where
  "children sc = (case scopes sc of None \<Rightarrow> [] | Some ch \<Rightarrow> ch)"

text \<open>
  A scope after \<open>stop(true)\<close>: inactive, its arrays emptied, its parent forgotten.
\<close>

definition stopped :: "scope \<Rightarrow> scope" where
  "stopped sc =
     sc\<lparr>active := False, effects := [], cleanups := [],
        scopes := (case scopes sc of None \<Rightarrow> None | Some _ \<Rightarrow> Some []),
        parent := None\<rparr>"

text \<open>Every child of a scope exists and was created after it.\<close>

definition ordered :: "scope_state \<Rightarrow> bool" where
  "ordered s \<longleftrightarrow>
     (\<forall>x < length (store s). \<forall>e \<in> set (children (store s ! x)).
        \<exists>c. e = Some c \<and> x < c \<and> c < length (store s))"

text \<open>
  What calls of \<open>stop(true)\<close> with quiet callbacks do between two states: each scope
  is left as it was or,
  having been active, is stopped; the calls recorded for a scope are those of its own
  effects and cleanups, once, if it was stopped, and none otherwise; and the children of
  a scope that was stopped are inactive afterwards.
\<close>

definition stops :: "scope_state \<Rightarrow> scope_state \<Rightarrow> bool" where
  "stops s s' \<longleftrightarrow>
     length (store s') = length (store s) \<and>
     activeEffectScope s' = activeEffectScope s \<and>
     (\<forall>x < length (store s).
        store s' ! x = store s ! x \<or>
        (active (store s ! x) \<and> store s' ! x = stopped (store s ! x))) \<and>
     (\<exists>new. trace s' = trace s @ new \<and>
        (\<forall>d. filter (\<lambda>e. scope_of e = d) new =
           (if d < length (store s) \<and> active (store s ! d) \<and> \<not> active (store s' ! d)
            then own_events (store s ! d) d else []))) \<and>
     (\<forall>x < length (store s). active (store s ! x) \<longrightarrow> \<not> active (store s' ! x) \<longrightarrow>
        (\<forall>c. Some c \<in> set (children (store s ! x)) \<longrightarrow> c < length (store s) \<longrightarrow>
           \<not> active (store s' ! c)))"

text \<open>The scopes reached from a scope through child arrays.\<close>

inductive_set descendants :: "scope_state \<Rightarrow> addr \<Rightarrow> addr set" for s :: scope_state and a :: addr where
  base: "a \<in> descendants s a"
| step: "d \<in> descendants s a \<Longrightarrow> d < length (store s) \<Longrightarrow>
         Some c \<in> set (children (store s ! d)) \<Longrightarrow> c \<in> descendants s a"

text \<open>
  What \<open>c.stop(true)\<close> does then: the above, with \<open>c\<close> inactive afterwards, no older
  scope touched, and only descendants of \<open>c\<close> stopped.
\<close>

definition stops_from :: "scope_state \<Rightarrow> addr \<Rightarrow> scope_state \<Rightarrow> bool" where
  "stops_from s c s' \<longleftrightarrow>
     stops s s' \<and> \<not> active (store s' ! c) \<and>
     (\<forall>x < c. store s' ! x = store s ! x) \<and>
     (\<forall>x < length (store s). active (store s ! x) \<longrightarrow> \<not> active (store s' ! x) \<longrightarrow>
        x \<in> descendants s c)"

text \<open>
  The scope trees the constructor and \<open>stop\<close> build: a child is younger than its
  parent and records its parent and its place in the parent's array; a stopped scope
  has no parent; a scope that is not detached is in its parent's array at its
  recorded index.
\<close>

definition scopes_wf :: "scope_state \<Rightarrow> bool" where
  "scopes_wf s \<longleftrightarrow>
     (\<forall>x < length (store s).
        (\<forall>j < length (children (store s ! x)).
           \<exists>c. children (store s ! x) ! j = Some c \<and> x < c \<and> c < length (store s) \<and>
               parent (store s ! c) = Some x \<and> index (store s ! c) = Some j \<and>
               \<not> detached (store s ! c)) \<and>
        (\<not> active (store s ! x) \<longrightarrow> parent (store s ! x) = None) \<and>
        (\<forall>p. parent (store s ! x) = Some p \<longrightarrow> \<not> detached (store s ! x) \<longrightarrow>
           p < x \<and>
           (\<exists>i. index (store s ! x) = Some i \<and> i < length (children (store s ! p)) \<and>
                children (store s ! p) ! i = Some x)))"

text \<open>A callback that returns and leaves the state as it is.\<close>

definition quiet :: "(scope_state \<Rightarrow> outcome option) \<Rightarrow> bool" where
  "quiet f \<longleftrightarrow> (\<forall>t. f t = Some (None, t))"

text \<open>
  The scopes below a scope, and the scope itself, hold only such callbacks: the \<open>stop\<close>
  of no effect and no cleanup of theirs throws or changes a scope.
\<close>

definition quiet_scope :: "callbacks \<Rightarrow> scope \<Rightarrow> bool" where
  "quiet_scope cb sc \<longleftrightarrow>
     (\<forall>e \<in> set (effects sc). quiet (effect_stop cb e)) \<and>
     (\<forall>c \<in> set (cleanups sc). quiet (cleanup cb c))"

definition quiet_from :: "callbacks \<Rightarrow> scope_state \<Rightarrow> addr \<Rightarrow> bool" where
  "quiet_from cb s a \<longleftrightarrow>
     (\<forall>d \<in> descendants s a. d < length (store s) \<longrightarrow> quiet_scope cb (store s ! d))"

text \<open>
  The state of \<open>stop\<close> after \<open>this._active = false\<close> and the first two loops, when the
  callbacks of the scope are quiet.
\<close>

definition stop_prefix :: "scope_state \<Rightarrow> addr \<Rightarrow> scope_state" where
  "stop_prefix s c =
     (update s c (\<lambda>x. x\<lparr>active := False, effects := [], cleanups := []\<rparr>))
       \<lparr>trace := trace s @ own_events (store s ! c) c\<rparr>"

section \<open>Example objects and states\<close>

text \<open>\<open>{}\<close>, \<open>new Map()\<close>, \<open>new Set()\<close>, \<open>Object.freeze({})\<close> and \<open>new Date()\<close>.\<close>

definition ex_object :: object where
  "ex_object =
     \<lparr>typeString = ''[object Object]'', extensible = True, callable = False,
      props = (\<lambda>_. Undefined), slots = NoSlots\<rparr>"

definition ex_map :: object where
  "ex_map =
     \<lparr>typeString = ''[object Map]'', extensible = True, callable = False,
      props = (\<lambda>_. Undefined), slots = MapData False []\<rparr>"

definition ex_set :: object where
  "ex_set =
     \<lparr>typeString = ''[object Set]'', extensible = True, callable = False,
      props = (\<lambda>_. Undefined), slots = SetData False []\<rparr>"

definition ex_frozen :: object where
  "ex_frozen = ex_object\<lparr>extensible := False\<rparr>"

definition ex_date :: object where
  "ex_date = ex_object\<lparr>typeString := ''[object Date]''\<rparr>"

text \<open>An object with the \<open>SKIP\<close> flag set: \<open>{ __v_skip: true }\<close>.\<close>

definition ex_skipped :: object where
  "ex_skipped = ex_object\<lparr>props := (\<lambda>k. if k = SKIP then Bool True else Undefined)\<rparr>"

text \<open>The state after \<open>readonly({})\<close> in a fresh module.\<close>

definition ex_readonly_state :: state where
  "ex_readonly_state =
     \<lparr>heap = (\<lambda>a. if a = 0 then Some (Ordinary ex_object)
                  else if a = 1 then Some (ProxyOf 0 readonlyHandlers)
                  else None),
      nxt = 2,
      reactiveMap = (\<lambda>_. None),
      readonlyMap = (\<lambda>a. if a = 0 then Some 1 else None),
      triggered = []\<rparr>"

text \<open>\<open>new Map([['x', 1]])\<close>, and the states after \<open>reactive\<close> and after \<open>readonly\<close> of it.\<close>

definition ex_map_x1 :: object where
  "ex_map_x1 = ex_map\<lparr>slots := MapData False [(Str ''x'', Number (Fin 1))]\<rparr>"

definition ex_reactive_map_state :: state where
  "ex_reactive_map_state =
     \<lparr>heap = (\<lambda>a. if a = 0 then Some (Ordinary ex_map_x1)
                  else if a = 1 then Some (ProxyOf 0 mutableCollectionHandlers)
                  else None),
      nxt = 2,
      reactiveMap = (\<lambda>a. if a = 0 then Some 1 else None),
      readonlyMap = (\<lambda>_. None),
      triggered = []\<rparr>"

definition ex_readonly_map_state :: state where
  "ex_readonly_map_state =
     \<lparr>heap = (\<lambda>a. if a = 0 then Some (Ordinary ex_map_x1)
                  else if a = 1 then Some (ProxyOf 0 readonlyCollectionHandlers)
                  else None),
      nxt = 2,
      reactiveMap = (\<lambda>_. None),
      readonlyMap = (\<lambda>a. if a = 0 then Some 1 else None),
      triggered = []\<rparr>"

text \<open>
  \<open>new WeakMap([[sym, 1]])\<close> for \<open>sym = Symbol()\<close>, and the state after \<open>reactive\<close> of
  it.
\<close>

definition ex_weakmap_sym :: object where
  "ex_weakmap_sym =
     \<lparr>typeString = ''[object WeakMap]'', extensible = True, callable = False,
      props = (\<lambda>_. Undefined), slots = MapData True [(Sym (Unique 0), Number (Fin 1))]\<rparr>"

definition ex_reactive_weakmap_state :: state where
  "ex_reactive_weakmap_state =
     \<lparr>heap = (\<lambda>a. if a = 0 then Some (Ordinary ex_weakmap_sym)
                  else if a = 1 then Some (ProxyOf 0 mutableCollectionHandlers)
                  else None),
      nxt = 2,
      reactiveMap = (\<lambda>a. if a = 0 then Some 1 else None),
      readonlyMap = (\<lambda>_. None),
      triggered = []\<rparr>"

text \<open>
  A fresh scope; a tree of four scopes, scope 0 with children 1 and 2 and scope 1
  with child 3; and an active beside a stopped scope.
\<close>

definition ex_scope :: scope where
  "ex_scope =
     \<lparr>active = True, on_count = 0, effects = [], cleanups = [], isPaused = False,
      parent = None, scopes = None, index = None, detached = False, prevScope = None\<rparr>"


text \<open>Callbacks that return at once.\<close>

definition ex_quiet :: callbacks where
  "ex_quiet = \<lparr>effect_stop = (\<lambda>_ s. Some (None, s)), cleanup = (\<lambda>_ s. Some (None, s))\<rparr>"

text \<open>
  A scope 0 with child 1, which has children 2 and 3; the cleanup 7 of scope 2 is
  \<open>() => scope3.stop()\<close>, and the cleanup 8 is \<open>() => { throw 0 }\<close>.
\<close>

definition ex_callbacks :: callbacks where
  "ex_callbacks =
     \<lparr>effect_stop = (\<lambda>_ s. Some (None, s)),
      cleanup = (\<lambda>c s. if c = 7 then stop ex_quiet s 3 False
                        else if c = 8 then Some (Some (Thrown 0), s)
                        else Some (None, s))\<rparr>"

definition ex_siblings :: scope_state where
  "ex_siblings =
     \<lparr>store =
        [ex_scope\<lparr>scopes := Some [Some 1]\<rparr>,
         ex_scope\<lparr>parent := Some 0, index := Some 0, scopes := Some [Some 2, Some 3]\<rparr>,
         ex_scope\<lparr>parent := Some 1, index := Some 0, cleanups := [7]\<rparr>,
         ex_scope\<lparr>parent := Some 1, index := Some 1\<rparr>],
      activeEffectScope = None,
      trace = []\<rparr>"


text \<open>
  A scope with the cleanups 8, which throws, and 9, and with one child; and the same
  after its \<open>stop()\<close> has thrown: the cleanup 9 was not called and the child is active.
\<close>

definition ex_throwing :: scope_state where
  "ex_throwing =
     \<lparr>store =
        [ex_scope\<lparr>cleanups := [8, 9], scopes := Some [Some 1]\<rparr>,
         ex_scope\<lparr>parent := Some 0, index := Some 0\<rparr>],
      activeEffectScope = None,
      trace = []\<rparr>"


text \<open>
  An effect whose \<open>stop\<close> takes it out of the \<open>effects\<close> array of scope 0; a scope with
  two such effects, and the same after its \<open>stop()\<close> has thrown.
\<close>

definition ex_leaving :: callbacks where
  "ex_leaving =
     \<lparr>effect_stop = (\<lambda>e s. Some (None, update s 0 (\<lambda>x. x\<lparr>effects := removeAll e (effects x)\<rparr>))),
      cleanup = (\<lambda>_ s. Some (None, s))\<rparr>"

definition ex_two_effects :: scope_state where
  "ex_two_effects =
     \<lparr>store = [ex_scope\<lparr>effects := [10, 11]\<rparr>], activeEffectScope = None, trace = []\<rparr>"

definition ex_two_effects_after :: scope_state where
  "ex_two_effects_after =
     \<lparr>store = [ex_scope\<lparr>active := False, effects := [11]\<rparr>], activeEffectScope = None,
      trace = [EffectStop 0 10]\<rparr>"

definition ex_two_scopes :: scope_state where
  "ex_two_scopes =
     \<lparr>store = [ex_scope, ex_scope\<lparr>active := False\<rparr>],
      activeEffectScope = Some 1,
      trace = []\<rparr>"

section \<open>Properties of reactive.ts\<close>

subsection \<open>Reading through proxies\<close>

lemma underlying_Ordinary: "h a = Some (Ordinary ob) \<Longrightarrow> underlying h a = Some (a, ob)"
  by (subst underlying.simps) simp

lemma underlying_Proxy: "h a = Some (ProxyOf t hs) \<Longrightarrow> underlying h a = underlying h t"
  by (subst underlying.simps) simp

lemma underlying_None: "h a = None \<Longrightarrow> underlying h a = None"
  by (subst underlying.simps) simp

lemma getFlag_Ordinary: "h a = Some (Ordinary ob) \<Longrightarrow> getFlag h a key = Some (props ob key)"
  by (subst getFlag.simps) simp

lemma getFlag_Proxy:
  "h a = Some (ProxyOf t hs) \<Longrightarrow>
   getFlag h a key = (case handler_get hs t key of Return v \<Rightarrow> Some v | FromTarget \<Rightarrow> getFlag h t key)"
  by (subst getFlag.simps) simp

lemma handler_get_RAW: "handler_get hs t RAW = Return (Obj t)"
  by (cases hs) (simp_all add: handler_get_def baseGetter_def createInstrumentationGetter_def)

lemma handler_get_SKIP: "handler_get hs t SKIP = FromTarget"
  by (cases hs) (simp_all add: handler_get_def baseGetter_def createInstrumentationGetter_def)

lemma handler_get_IS_REACTIVE:
  "handler_get hs t IS_REACTIVE = Return (Bool (hs = mutableHandlers \<or> hs = mutableCollectionHandlers))"
  by (cases hs) (simp_all add: handler_get_def baseGetter_def createInstrumentationGetter_def)

lemma handler_get_IS_READONLY:
  "handler_get hs t IS_READONLY = Return (Bool (hs = readonlyHandlers \<or> hs = readonlyCollectionHandlers))"
  by (cases hs) (simp_all add: handler_get_def baseGetter_def createInstrumentationGetter_def)

lemma wf_underlying_total:
  "wf s \<Longrightarrow> a < nxt s \<Longrightarrow> \<exists>b ob. underlying (heap s) a = Some (b, ob) \<and> heap s b = Some (Ordinary ob)"
proof (induction a rule: less_induct)
  case (less a)
  from less.prems have "heap s a \<noteq> None" by (simp add: wf_def)
  then obtain c where c: "heap s a = Some c" by auto
  show ?case
  proof (cases c)
    case (Ordinary ob)
    with c show ?thesis by (auto simp: underlying_Ordinary)
  next
    case (ProxyOf t hs)
    with c less.prems have "t < a" by (auto simp: wf_def)
    with less.IH[of t] less.prems have "\<exists>b ob. underlying (heap s) t = Some (b, ob) \<and> heap s b = Some (Ordinary ob)"
      by auto
    with c ProxyOf show ?thesis by (simp add: underlying_Proxy)
  qed
qed

lemma wf_getFlag_total:
  "wf s \<Longrightarrow> a < nxt s \<Longrightarrow> \<exists>v. getFlag (heap s) a key = Some v"
proof (induction a rule: less_induct)
  case (less a)
  from less.prems have "heap s a \<noteq> None" by (simp add: wf_def)
  then obtain c where c: "heap s a = Some c" by auto
  show ?case
  proof (cases c)
    case (Ordinary ob)
    with c show ?thesis by (auto simp: getFlag_Ordinary)
  next
    case (ProxyOf t hs)
    with c less.prems have "t < a" by (auto simp: wf_def)
    with less.IH[of t] less.prems have "\<exists>v. getFlag (heap s) t key = Some v"
      by auto
    with c ProxyOf show ?thesis by (auto simp add: getFlag_Proxy split: trapped.splits)
  qed
qed

lemma wf_getProp_total:
  "wf s \<Longrightarrow> allocated s v \<Longrightarrow> v \<noteq> Undefined \<Longrightarrow> v \<noteq> Null \<Longrightarrow> \<exists>w. getProp s v key = Some w"
  using wf_getFlag_total by (cases v) (auto simp: getProp_def allocated_def)

lemma wf_isReadonly_total:
  "wf s \<Longrightarrow> allocated s v \<Longrightarrow> \<exists>b. isReadonly s v = Some b"
  using wf_getProp_total[of s v IS_READONLY] by (cases v) (auto simp: isReadonly_def)

lemma wf_isObject_total:
  "wf s \<Longrightarrow> allocated s v \<Longrightarrow> \<exists>b. isObject s v = Some b"
proof (cases v)
  case (Obj a)
  assume "wf s" "allocated s v"
  with Obj obtain b ob where "underlying (heap s) a = Some (b, ob)"
    using wf_underlying_total[of s a] by (auto simp: allocated_def)
  with Obj show ?thesis by (simp add: isObject_def typeof_def)
qed (auto simp: isObject_def typeof_def)

lemma isObject_True_Obj: "isObject s v = Some True \<Longrightarrow> \<exists>a. v = Obj a"
  by (cases v) (auto simp: isObject_def typeof_def)

lemma wf_isExtensible_total:
  "wf s \<Longrightarrow> allocated s v \<Longrightarrow> \<exists>b. isExtensible s v = Some b"
proof (cases v)
  case (Obj a)
  assume "wf s" "allocated s v"
  with Obj obtain b ob where "underlying (heap s) a = Some (b, ob)"
    using wf_underlying_total[of s a] by (auto simp: allocated_def)
  with Obj show ?thesis by (simp add: isExtensible_def)
qed (auto simp: isExtensible_def)

lemma wf_toRawType_total:
  "wf s \<Longrightarrow> allocated s v \<Longrightarrow> \<exists>t. toRawType s v = Some t"
proof (cases v)
  case (Obj a)
  assume "wf s" "allocated s v"
  with Obj obtain b ob where "underlying (heap s) a = Some (b, ob)"
    using wf_underlying_total[of s a] by (auto simp: allocated_def)
  with Obj show ?thesis by (simp add: toRawType_def toTypeString_def objectToString_def)
qed (auto simp: toRawType_def toTypeString_def objectToString_def)

lemma targetTypeMap_INVALID:
  "t \<notin> {''Object'', ''Array'', ''Map'', ''Set'', ''WeakMap'', ''WeakSet''} \<Longrightarrow> targetTypeMap t = INVALID"
  by (simp add: targetTypeMap_def)

lemma getTargetType_INVALID:
  assumes "wf s" "allocated s (Obj a)"
    and "isExtensible s (Obj a) = Some False
       \<or> (\<exists>t. toRawType s (Obj a) = Some t \<and> t \<notin> {''Object'', ''Array'', ''Map'', ''Set'', ''WeakMap'', ''WeakSet''})
       \<or> (\<exists>v. getProp s (Obj a) SKIP = Some v \<and> truthy v)"
  shows "getTargetType s (Obj a) = Some INVALID"
proof -
  obtain sk where sk: "getProp s (Obj a) SKIP = Some sk"
    using wf_getProp_total[OF assms(1,2)] by blast
  obtain ext where ext: "isExtensible s (Obj a) = Some ext"
    using wf_isExtensible_total[OF assms(1,2)] by blast
  obtain t where t: "toRawType s (Obj a) = Some t"
    using wf_toRawType_total[OF assms(1,2)] by blast
  show ?thesis using assms(3) sk ext t
    by (auto simp: getTargetType_def targetTypeMap_INVALID)
qed

lemma createReactiveObject_unchanged:
  assumes "wf s" "allocated s x"
    and "isObject s x = Some False
       \<or> isExtensible s x = Some False
       \<or> (\<exists>t. toRawType s x = Some t \<and> t \<notin> {''Object'', ''Array'', ''Map'', ''Set'', ''WeakMap'', ''WeakSet''})
       \<or> (\<exists>v. getProp s x SKIP = Some v \<and> truthy v)"
  shows "createReactiveObject s x ro bh ch pm = Some (x, s)"
proof -
  obtain b where b: "isObject s x = Some b" using wf_isObject_total[OF assms(1,2)] by blast
  show ?thesis
  proof (cases b)
    case False
    with b show ?thesis by (simp add: createReactiveObject_def)
  next
    case True
    with b obtain a where a: "x = Obj a" using isObject_True_Obj[of s x] by auto
    obtain raw where raw: "getProp s x RAW = Some raw"
      using wf_getProp_total[OF assms(1,2)] a by blast
    obtain ir where ir: "getProp s x IS_REACTIVE = Some ir"
      using wf_getProp_total[OF assms(1,2)] a by blast
    have tt: "getTargetType s x = Some INVALID"
      using getTargetType_INVALID[of s a] assms b True a by auto
    show ?thesis using b True raw ir tt
      by (simp add: createReactiveObject_def)
  qed
qed

lemma isProxy_False_Ordinary:
  assumes "isProxy s (Obj a) = Some False"
  shows "\<exists>ob. heap s a = Some (Ordinary ob) \<and> \<not> truthy (props ob RAW)"
proof (cases "heap s a")
  case None
  then have "getFlag (heap s) a RAW = None" by (subst getFlag.simps) simp
  with assms show ?thesis by (simp add: isProxy_def getProp_def)
next
  case (Some c)
  show ?thesis
  proof (cases c)
    case (Ordinary ob)
    with Some assms show ?thesis by (simp add: isProxy_def getProp_def getFlag_Ordinary)
  next
    case (ProxyOf t hs)
    with Some assms show ?thesis
      by (simp add: isProxy_def getProp_def getFlag_Proxy handler_get_RAW)
  qed
qed

lemma targetTypeMap_cases:
  "targetTypeMap t = COMMON \<or> targetTypeMap t = COLLECTION \<longleftrightarrow>
   t \<in> {''Object'', ''Array'', ''Map'', ''Set'', ''WeakMap'', ''WeakSet''}"
  by (simp add: targetTypeMap_def)

lemma getTargetType_Ordinary:
  "heap s a = Some (Ordinary ob) \<Longrightarrow>
   getTargetType s (Obj a) =
     Some (if truthy (props ob SKIP) \<or> \<not> extensible ob then INVALID
           else targetTypeMap (slice_8_m1 (typeString ob)))"
  by (simp add: getTargetType_def getProp_def getFlag_Ordinary isExtensible_def
      underlying_Ordinary toRawType_def toTypeString_def objectToString_def)

lemma accepted_Ordinary_iff:
  assumes "heap s a = Some (Ordinary ob)"
  shows "accepted s a \<longleftrightarrow>
     observable ob \<and> \<not> truthy (props ob RAW) \<and> \<not> truthy (props ob IS_READONLY)"
  using assms targetTypeMap_cases[of "slice_8_m1 (typeString ob)"]
  by (auto simp: accepted_def observable_def isObject_def typeof_def underlying_Ordinary
      isReadonly_def isProxy_def getProp_def getFlag_Ordinary getTargetType_Ordinary)

lemma accepted_Ordinary:
  assumes "accepted s a"
  shows "\<exists>ob. heap s a = Some (Ordinary ob) \<and> observable ob \<and>
           \<not> truthy (props ob RAW) \<and> \<not> truthy (props ob IS_READONLY)"
proof -
  from assms have "isProxy s (Obj a) = Some False" by (simp add: accepted_def)
  then obtain ob where ob: "heap s a = Some (Ordinary ob)"
    using isProxy_False_Ordinary by blast
  with assms accepted_Ordinary_iff[OF ob] show ?thesis by simp
qed

lemma toRaw_Ordinary:
  "heap s a = Some (Ordinary ob) \<Longrightarrow> \<not> truthy (props ob RAW) \<Longrightarrow> toRaw s (Obj a) = Some (Obj a)"
  by (subst toRaw.simps) (simp add: getProp_def getFlag_Ordinary)

lemma toRaw_Proxy:
  "heap s p = Some (ProxyOf t hs) \<Longrightarrow> toRaw s (Obj p) = toRaw s (Obj t)"
  by (subst toRaw.simps) (simp add: getProp_def getFlag_Proxy handler_get_RAW)

lemma toRaw_falsy: "\<not> truthy v \<Longrightarrow> toRaw s v = Some v"
  by (subst toRaw.simps) simp

lemma reactive_accepted:
  assumes ob: "heap s a = Some (Ordinary ob)" and acc: "accepted s a"
  shows "reactive s (Obj a) =
     Some (case reactiveMap s a of
             Some p \<Rightarrow> (Obj p, s)
           | None \<Rightarrow>
               (Obj (nxt s),
                s\<lparr>heap := (heap s)(nxt s \<mapsto> ProxyOf a (mutableFor ob)),
                  nxt := Suc (nxt s),
                  reactiveMap := (reactiveMap s)(a \<mapsto> nxt s)\<rparr>))"
proof -
  from acc ob have o: "observable ob" "\<not> truthy (props ob RAW)" "\<not> truthy (props ob IS_READONLY)"
    by (simp_all add: accepted_Ordinary_iff)
  from acc have g: "isObject s (Obj a) = Some True" "isReadonly s (Obj a) = Some False"
    by (simp_all add: accepted_def)
  from o(1) have tt: "getTargetType s (Obj a) = Some (targetTypeMap (slice_8_m1 (typeString ob)))"
    "targetTypeMap (slice_8_m1 (typeString ob)) \<noteq> INVALID"
    using targetTypeMap_cases[of "slice_8_m1 (typeString ob)"]
    by (auto simp: getTargetType_Ordinary[OF ob] observable_def)
  show ?thesis
    using g tt o(2)
    by (simp add: reactive_def createReactiveObject_def getProp_def getFlag_Ordinary ob
        proxyMap_get_def proxyMap_set_def newProxy_def mutableFor_def split: option.splits)
qed

lemma readonly_of_reactive:
  assumes p: "heap s p = Some (ProxyOf a hs)"
    and hs: "hs = mutableHandlers \<or> hs = mutableCollectionHandlers"
    and ob: "heap s a = Some (Ordinary ob)" and o: "observable ob"
  shows "readonly s (Obj p) =
     Some (case readonlyMap s p of
             Some q \<Rightarrow> (Obj q, s)
           | None \<Rightarrow>
               (Obj (nxt s),
                s\<lparr>heap := (heap s)(nxt s \<mapsto> ProxyOf p (readonlyFor ob)),
                  nxt := Suc (nxt s),
                  readonlyMap := (readonlyMap s)(p \<mapsto> nxt s)\<rparr>))"
proof -
  have u: "underlying (heap s) p = Some (a, ob)"
    using p ob by (simp add: underlying_Proxy underlying_Ordinary)
  have io: "isObject s (Obj p) = Some True"
    using u o by (simp add: isObject_def typeof_def observable_def)
  have raw: "getProp s (Obj p) RAW = Some (Obj a)"
    using p by (simp add: getProp_def getFlag_Proxy handler_get_RAW)
  have ir: "getProp s (Obj p) IS_REACTIVE = Some (Bool True)"
    using p hs by (auto simp add: getProp_def getFlag_Proxy handler_get_IS_REACTIVE)
  have tt: "getTargetType s (Obj p) = Some (targetTypeMap (slice_8_m1 (typeString ob)))"
    "targetTypeMap (slice_8_m1 (typeString ob)) \<noteq> INVALID"
    using targetTypeMap_cases[of "slice_8_m1 (typeString ob)"] o u p ob
    by (auto simp: getTargetType_def getProp_def getFlag_Proxy handler_get_SKIP getFlag_Ordinary
        isExtensible_def toRawType_def toTypeString_def objectToString_def observable_def)
  show ?thesis
    using io raw ir tt
    by (simp add: readonly_def createReactiveObject_def 
        proxyMap_get_def proxyMap_set_def newProxy_def readonlyFor_def split: option.splits)
qed

lemma wf_heap_nxt: "wf s \<Longrightarrow> heap s (nxt s) = None"
  by (auto simp: wf_def)

lemma wf_lt_nxt: "wf s \<Longrightarrow> heap s a = Some c \<Longrightarrow> a < nxt s"
  by (auto simp: wf_def)

lemma wf_new_reactive:
  assumes wf: "wf s" and a: "a < nxt s" and hs: "hs = mutableHandlers \<or> hs = mutableCollectionHandlers"
  shows "wf (s\<lparr>heap := (heap s)(nxt s \<mapsto> ProxyOf a hs), nxt := Suc (nxt s),
               reactiveMap := (reactiveMap s)(a \<mapsto> nxt s)\<rparr>)"
proof -
  let ?h = "(heap s)(nxt s \<mapsto> ProxyOf a hs)"
  have fresh: "heap s (nxt s) = None" using wf by (rule wf_heap_nxt)
  have 1: "\<forall>x. ?h x \<noteq> None \<longleftrightarrow> x < Suc (nxt s)"
    using wf by (auto simp: wf_def less_Suc_eq)
  have 2: "\<forall>x t h. ?h x = Some (ProxyOf t h) \<longrightarrow> t < x"
    using wf a by (auto simp: wf_def)
  have 3: "\<forall>x p. ((reactiveMap s)(a \<mapsto> nxt s)) x = Some p \<longrightarrow>
             ?h p = Some (ProxyOf x mutableHandlers) \<or> ?h p = Some (ProxyOf x mutableCollectionHandlers)"
  proof (intro allI impI)
    fix x p assume xp: "((reactiveMap s)(a \<mapsto> nxt s)) x = Some p"
    show "?h p = Some (ProxyOf x mutableHandlers) \<or> ?h p = Some (ProxyOf x mutableCollectionHandlers)"
    proof (cases "x = a")
      case True
      with xp hs show ?thesis by auto
    next
      case False
      with xp have "reactiveMap s x = Some p" by simp
      with wf have hp: "heap s p = Some (ProxyOf x mutableHandlers) \<or> heap s p = Some (ProxyOf x mutableCollectionHandlers)"
        by (simp add: wf_def)
      with fresh have "p \<noteq> nxt s" by auto
      with hp show ?thesis by simp
    qed
  qed
  have 4: "\<forall>x p. readonlyMap s x = Some p \<longrightarrow>
             ?h p = Some (ProxyOf x readonlyHandlers) \<or> ?h p = Some (ProxyOf x readonlyCollectionHandlers)"
  proof (intro allI impI)
    fix x p assume "readonlyMap s x = Some p"
    with wf have hp: "heap s p = Some (ProxyOf x readonlyHandlers) \<or> heap s p = Some (ProxyOf x readonlyCollectionHandlers)"
      by (simp add: wf_def)
    with fresh have "p \<noteq> nxt s" by auto
    with hp show "?h p = Some (ProxyOf x readonlyHandlers) \<or> ?h p = Some (ProxyOf x readonlyCollectionHandlers)"
      by simp
  qed
  from 1 2 3 4 show ?thesis unfolding wf_def by simp
qed

lemma wf_new_readonly:
  assumes wf: "wf s" and a: "a < nxt s" and hs: "hs = readonlyHandlers \<or> hs = readonlyCollectionHandlers"
  shows "wf (s\<lparr>heap := (heap s)(nxt s \<mapsto> ProxyOf a hs), nxt := Suc (nxt s),
               readonlyMap := (readonlyMap s)(a \<mapsto> nxt s)\<rparr>)"
proof -
  let ?h = "(heap s)(nxt s \<mapsto> ProxyOf a hs)"
  have fresh: "heap s (nxt s) = None" using wf by (rule wf_heap_nxt)
  have 1: "\<forall>x. ?h x \<noteq> None \<longleftrightarrow> x < Suc (nxt s)"
    using wf by (auto simp: wf_def less_Suc_eq)
  have 2: "\<forall>x t h. ?h x = Some (ProxyOf t h) \<longrightarrow> t < x"
    using wf a by (auto simp: wf_def)
  have 3: "\<forall>x p. ((readonlyMap s)(a \<mapsto> nxt s)) x = Some p \<longrightarrow>
             ?h p = Some (ProxyOf x readonlyHandlers) \<or> ?h p = Some (ProxyOf x readonlyCollectionHandlers)"
  proof (intro allI impI)
    fix x p assume xp: "((readonlyMap s)(a \<mapsto> nxt s)) x = Some p"
    show "?h p = Some (ProxyOf x readonlyHandlers) \<or> ?h p = Some (ProxyOf x readonlyCollectionHandlers)"
    proof (cases "x = a")
      case True
      with xp hs show ?thesis by auto
    next
      case False
      with xp have "readonlyMap s x = Some p" by simp
      with wf have hp: "heap s p = Some (ProxyOf x readonlyHandlers) \<or> heap s p = Some (ProxyOf x readonlyCollectionHandlers)"
        by (simp add: wf_def)
      with fresh have "p \<noteq> nxt s" by auto
      with hp show ?thesis by simp
    qed
  qed
  have 4: "\<forall>x p. reactiveMap s x = Some p \<longrightarrow>
             ?h p = Some (ProxyOf x mutableHandlers) \<or> ?h p = Some (ProxyOf x mutableCollectionHandlers)"
  proof (intro allI impI)
    fix x p assume "reactiveMap s x = Some p"
    with wf have hp: "heap s p = Some (ProxyOf x mutableHandlers) \<or> heap s p = Some (ProxyOf x mutableCollectionHandlers)"
      by (simp add: wf_def)
    with fresh have "p \<noteq> nxt s" by auto
    with hp show "?h p = Some (ProxyOf x mutableHandlers) \<or> ?h p = Some (ProxyOf x mutableCollectionHandlers)"
      by simp
  qed
  from 1 2 3 4 show ?thesis unfolding wf_def by simp
qed

lemma wf_init: "wf (init obs)"
  by (simp add: wf_def init_def)

lemma mutableFor_cases: "mutableFor ob = mutableHandlers \<or> mutableFor ob = mutableCollectionHandlers"
  by (simp add: mutableFor_def)

lemma readonlyFor_cases: "readonlyFor ob = readonlyHandlers \<or> readonlyFor ob = readonlyCollectionHandlers"
  by (simp add: readonlyFor_def)

lemma reactive_accepted_proxy:
  assumes wf: "wf s" and ob: "heap s a = Some (Ordinary ob)" and acc: "accepted s a"
  shows "\<exists>p s' hs. reactive s (Obj a) = Some (Obj p, s') \<and> wf s' \<and>
           heap s' a = Some (Ordinary ob) \<and> heap s' p = Some (ProxyOf a hs) \<and>
           (hs = mutableHandlers \<or> hs = mutableCollectionHandlers) \<and>
           reactiveMap s' a = Some p"
proof (cases "reactiveMap s a")
  case None
  let ?s' = "s\<lparr>heap := (heap s)(nxt s \<mapsto> ProxyOf a (mutableFor ob)), nxt := Suc (nxt s),
                reactiveMap := (reactiveMap s)(a \<mapsto> nxt s)\<rparr>"
  have a: "a < nxt s" using wf ob by (rule wf_lt_nxt)
  have r: "reactive s (Obj a) = Some (Obj (nxt s), ?s')"
    using reactive_accepted[OF ob acc] None by simp
  have w: "wf ?s'" using wf a mutableFor_cases by (rule wf_new_reactive)
  have "heap ?s' a = Some (Ordinary ob)" using a ob by simp
  moreover have "heap ?s' (nxt s) = Some (ProxyOf a (mutableFor ob))" by simp
  moreover have "reactiveMap ?s' a = Some (nxt s)" by simp
  ultimately show ?thesis using r w mutableFor_cases[of ob] by blast
next
  case (Some p)
  have r: "reactive s (Obj a) = Some (Obj p, s)"
    using reactive_accepted[OF ob acc] Some by simp
  from wf Some have "heap s p = Some (ProxyOf a mutableHandlers) \<or>
      heap s p = Some (ProxyOf a mutableCollectionHandlers)"
    by (simp add: wf_def)
  with r wf ob Some show ?thesis by blast
qed

subsection \<open>The operations keep the state well-formed\<close>

lemma isObject_True_allocated:
  assumes "wf s" "isObject s (Obj a) = Some True"
  shows "a < nxt s"
proof (cases "heap s a")
  case None
  then have "underlying (heap s) a = None" by (rule underlying_None)
  with assms(2) show ?thesis by (simp add: isObject_def typeof_def)
next
  case (Some c)
  with assms(1) show ?thesis by (rule wf_lt_nxt)
qed

lemma wf_reactive:
  assumes wf: "wf s" and r: "reactive s x = Some (y, s')"
  shows "wf s'"
proof (cases "s' = s")
  case True
  with wf show ?thesis by simp
next
  case False
  with r have "\<exists>a hs. isObject s (Obj a) = Some True \<and>
      (hs = mutableHandlers \<or> hs = mutableCollectionHandlers) \<and>
      s' = s\<lparr>heap := (heap s)(nxt s \<mapsto> ProxyOf a hs),
                    nxt := Suc (nxt s), reactiveMap := (reactiveMap s)(a \<mapsto> nxt s)\<rparr>"
    by (auto simp: reactive_def createReactiveObject_def proxyMap_get_def proxyMap_set_def
        newProxy_def split: option.splits bool.splits if_splits val.splits)
  then obtain a hs where io: "isObject s (Obj a) = Some True"
    and hs: "hs = mutableHandlers \<or> hs = mutableCollectionHandlers"
    and s': "s' = s\<lparr>heap := (heap s)(nxt s \<mapsto> ProxyOf a hs),
                    nxt := Suc (nxt s), reactiveMap := (reactiveMap s)(a \<mapsto> nxt s)\<rparr>"
    by blast
  have "a < nxt s" using wf io by (rule isObject_True_allocated)
  with wf hs show ?thesis unfolding s' by (intro wf_new_reactive)
qed

lemma wf_readonly:
  assumes wf: "wf s" and r: "readonly s x = Some (y, s')"
  shows "wf s'"
proof (cases "s' = s")
  case True
  with wf show ?thesis by simp
next
  case False
  with r have "\<exists>a hs. isObject s (Obj a) = Some True \<and>
      (hs = readonlyHandlers \<or> hs = readonlyCollectionHandlers) \<and>
      s' = s\<lparr>heap := (heap s)(nxt s \<mapsto> ProxyOf a hs),
                    nxt := Suc (nxt s), readonlyMap := (readonlyMap s)(a \<mapsto> nxt s)\<rparr>"
    by (auto simp: readonly_def createReactiveObject_def proxyMap_get_def proxyMap_set_def
        newProxy_def split: option.splits bool.splits if_splits val.splits)
  then obtain a hs where io: "isObject s (Obj a) = Some True"
    and hs: "hs = readonlyHandlers \<or> hs = readonlyCollectionHandlers"
    and s': "s' = s\<lparr>heap := (heap s)(nxt s \<mapsto> ProxyOf a hs),
                    nxt := Suc (nxt s), readonlyMap := (readonlyMap s)(a \<mapsto> nxt s)\<rparr>"
    by blast
  have "a < nxt s" using wf io by (rule isObject_True_allocated)
  with wf hs show ?thesis unfolding s' by (intro wf_new_readonly)
qed

lemma wf_setSlots:
  assumes "wf s"
  shows "wf (setSlots s v sl)"
proof (cases v)
  case (Obj a)
  show ?thesis
  proof (cases "heap s a")
    case None
    with Obj assms show ?thesis by (simp add: setSlots_def)
  next
    case (Some c)
    show ?thesis
    proof (cases c)
      case (ProxyOf t hs)
      with Obj Some assms show ?thesis by (simp add: setSlots_def)
    next
      case (Ordinary ob)
      have ha: "heap s a = Some (Ordinary ob)" using Some Ordinary by simp
      let ?h = "(heap s)(a \<mapsto> Ordinary (ob\<lparr>slots := sl\<rparr>))"
      have 1: "\<forall>x. ?h x \<noteq> None \<longleftrightarrow> x < nxt s"
        using assms ha by (auto simp: wf_def)
      have 2: "\<forall>x t h. ?h x = Some (ProxyOf t h) \<longrightarrow> t < x"
        using assms by (auto simp: wf_def)
      have 3: "\<forall>x p. reactiveMap s x = Some p \<longrightarrow>
             ?h p = Some (ProxyOf x mutableHandlers) \<or> ?h p = Some (ProxyOf x mutableCollectionHandlers)"
      proof (intro allI impI)
        fix x p assume "reactiveMap s x = Some p"
        with assms have hp: "heap s p = Some (ProxyOf x mutableHandlers) \<or>
            heap s p = Some (ProxyOf x mutableCollectionHandlers)" by (simp add: wf_def)
        with ha have "p \<noteq> a" by auto
        with hp show "?h p = Some (ProxyOf x mutableHandlers) \<or>
            ?h p = Some (ProxyOf x mutableCollectionHandlers)" by simp
      qed
      have 4: "\<forall>x p. readonlyMap s x = Some p \<longrightarrow>
             ?h p = Some (ProxyOf x readonlyHandlers) \<or> ?h p = Some (ProxyOf x readonlyCollectionHandlers)"
      proof (intro allI impI)
        fix x p assume "readonlyMap s x = Some p"
        with assms have hp: "heap s p = Some (ProxyOf x readonlyHandlers) \<or>
            heap s p = Some (ProxyOf x readonlyCollectionHandlers)" by (simp add: wf_def)
        with ha have "p \<noteq> a" by auto
        with hp show "?h p = Some (ProxyOf x readonlyHandlers) \<or>
            ?h p = Some (ProxyOf x readonlyCollectionHandlers)" by simp
      qed
      have "wf (s\<lparr>heap := ?h\<rparr>)"
        using 1 2 3 4 unfolding wf_def by simp
      with Obj Some Ordinary show ?thesis by (simp add: setSlots_def)
    qed
  qed
qed (simp_all add: setSlots_def assms)

lemma wf_trigger: "wf s \<Longrightarrow> wf (trigger s target type key v)"
  by (simp add: trigger_def wf_def)

lemma wf_callMethod:
  assumes wf: "wf s" and c: "callMethod s recv m args = Some (r, s')"
  shows "wf s'"
proof -
  from c obtain ro where ci: "createInstrumentations ro False m s recv args = Some (r, s')"
    by (auto simp: callMethod_def split: val.splits option.splits cell.splits if_splits
        handlers.splits)
  show ?thesis
  proof (cases ro)
    case True
    with ci wf show ?thesis by (simp add: createInstrumentations_def)
  next
    case False
    show ?thesis
    proof (cases m)
      case M_add
      with ci False wf show ?thesis
        by (auto simp: createInstrumentations_def add_instr_def wf_setSlots wf_trigger
            split: option.splits bool.splits)
    next
      case M_set
      with ci False wf show ?thesis
        by (auto simp: createInstrumentations_def set_instr_def wf_setSlots wf_trigger Let_def
            split: option.splits bool.splits if_splits)
    next
      case M_delete
      with ci False wf show ?thesis
        by (auto simp: createInstrumentations_def delete_instr_def wf_setSlots wf_trigger Let_def
            split: option.splits bool.splits if_splits)
    next
      case M_clear
      with ci False wf show ?thesis
        by (auto simp: createInstrumentations_def clear_instr_def wf_setSlots wf_trigger Let_def
            split: option.splits bool.splits if_splits)
    qed
  qed
qed

subsection \<open>Identity of proxies\<close>

text \<open>
  Claim C1. For every object accepted for proxying, in a well-formed state:
  \<open>reactive(o)\<close> returns a proxy \<open>p\<close> with \<open>toRaw(p) === o\<close>; a second call
  \<open>reactive(o)\<close> returns the same \<open>p\<close> and changes nothing; and \<open>p\<close> is the entry of
  \<open>reactiveMap\<close> under \<open>o\<close>.
\<close>

theorem reactive_identity:
  assumes wf: "wf s" and acc: "accepted s a"
  shows "\<exists>p s'. reactive s (Obj a) = Some (Obj p, s') \<and>
           toRaw s' (Obj p) = Some (Obj a) \<and>
           reactive s' (Obj a) = Some (Obj p, s') \<and>
           reactiveMap s' a = Some p"
proof -
  from acc obtain ob where ob: "heap s a = Some (Ordinary ob)" and o: "observable ob"
    and nr: "\<not> truthy (props ob RAW)" and nro: "\<not> truthy (props ob IS_READONLY)"
    using accepted_Ordinary by blast
  from reactive_accepted_proxy[OF wf ob acc]
  obtain p s' hs where r: "reactive s (Obj a) = Some (Obj p, s')" and w: "wf s'"
    and ob': "heap s' a = Some (Ordinary ob)" and p: "heap s' p = Some (ProxyOf a hs)"
    and m: "reactiveMap s' a = Some p"
    by blast
  have "toRaw s' (Obj p) = toRaw s' (Obj a)" using p by (rule toRaw_Proxy)
  also have "\<dots> = Some (Obj a)" using ob' nr by (rule toRaw_Ordinary)
  finally have t: "toRaw s' (Obj p) = Some (Obj a)" .
  have acc': "accepted s' a" using o nr nro by (simp add: accepted_Ordinary_iff[OF ob'])
  have "reactive s' (Obj a) = Some (Obj p, s')"
    using reactive_accepted[OF ob' acc'] m by simp
  with r t m show ?thesis by blast
qed

lemma slice_examples [simp]:
  "slice_8_m1 ''[object Object]'' = ''Object''"
  "slice_8_m1 ''[object Map]'' = ''Map''"
  "slice_8_m1 ''[object Set]'' = ''Set''"
  "slice_8_m1 ''[object Date]'' = ''Date''"
  by (simp_all add: slice_8_m1_def)

lemma accepted_init_map: "accepted (init [ex_map]) 0"
  by (simp add: accepted_Ordinary_iff[of _ _ ex_map] init_def observable_def ex_map_def)

theorem reactive_identity_witness:
  "wf (init [ex_map]) \<and> accepted (init [ex_map]) 0 \<and>
   (\<exists>p s'. reactive (init [ex_map]) (Obj 0) = Some (Obj p, s') \<and>
           toRaw s' (Obj p) = Some (Obj 0) \<and>
           reactive s' (Obj 0) = Some (Obj p, s') \<and>
           reactiveMap s' 0 = Some p)"
  using reactive_identity[OF wf_init accepted_init_map] wf_init accepted_init_map by blast

lemma isProxy_Proxy: "heap s q = Some (ProxyOf t hs) \<Longrightarrow> isProxy s (Obj q) = Some True"
  by (simp add: isProxy_def getProp_def getFlag_Proxy handler_get_RAW)

lemma isReadonly_Proxy:
  "heap s q = Some (ProxyOf t hs) \<Longrightarrow> hs = readonlyHandlers \<or> hs = readonlyCollectionHandlers \<Longrightarrow>
   isReadonly s (Obj q) = Some True"
  by (auto simp: isReadonly_def getProp_def getFlag_Proxy handler_get_IS_READONLY)

text \<open>
  Claim C2. For every object accepted for proxying, \<open>readonly(reactive(o))\<close> is a
  proxy other than \<open>reactive(o)\<close>, and \<open>toRaw\<close> of either is \<open>o\<close>.
\<close>

theorem readonly_of_reactive_distinct:
  assumes wf: "wf s" and acc: "accepted s a"
  shows "\<exists>p s1 q s2. reactive s (Obj a) = Some (Obj p, s1) \<and>
           readonly s1 (Obj p) = Some (Obj q, s2) \<and>
           q \<noteq> p \<and>
           isProxy s2 (Obj q) = Some True \<and>
           isReadonly s2 (Obj q) = Some True \<and>
           toRaw s2 (Obj q) = Some (Obj a) \<and>
           toRaw s2 (Obj p) = Some (Obj a)"
proof -
  from acc obtain ob where ob: "heap s a = Some (Ordinary ob)" and o: "observable ob"
    and nr: "\<not> truthy (props ob RAW)"
    using accepted_Ordinary by blast
  from reactive_accepted_proxy[OF wf ob acc]
  obtain p s1 hs where r: "reactive s (Obj a) = Some (Obj p, s1)" and w: "wf s1"
    and ob1: "heap s1 a = Some (Ordinary ob)" and p: "heap s1 p = Some (ProxyOf a hs)"
    and hs: "hs = mutableHandlers \<or> hs = mutableCollectionHandlers"
    by blast
  note ro = readonly_of_reactive[OF p hs ob1 o]
  show ?thesis
  proof (cases "readonlyMap s1 p")
    case None
    let ?q = "nxt s1"
    let ?s2 = "s1\<lparr>heap := (heap s1)(nxt s1 \<mapsto> ProxyOf p (readonlyFor ob)), nxt := Suc (nxt s1),
                  readonlyMap := (readonlyMap s1)(p \<mapsto> nxt s1)\<rparr>"
    have rq: "readonly s1 (Obj p) = Some (Obj ?q, ?s2)" using ro None by simp
    have lt: "p < nxt s1" "a < nxt s1" using w p ob1 by (auto intro: wf_lt_nxt)
    have hq: "heap ?s2 ?q = Some (ProxyOf p (readonlyFor ob))" by simp
    have hp: "heap ?s2 p = Some (ProxyOf a hs)" using lt p by simp
    have ha: "heap ?s2 a = Some (Ordinary ob)" using lt ob1 by simp
    have ta: "toRaw ?s2 (Obj a) = Some (Obj a)" using ha nr by (rule toRaw_Ordinary)
    have tp: "toRaw ?s2 (Obj p) = Some (Obj a)" using toRaw_Proxy[OF hp] ta by simp
    have tq: "toRaw ?s2 (Obj ?q) = Some (Obj a)" using toRaw_Proxy[OF hq] tp by simp
    have ip: "isProxy ?s2 (Obj ?q) = Some True" using hq by (rule isProxy_Proxy)
    have ir: "isReadonly ?s2 (Obj ?q) = Some True"
      using hq readonlyFor_cases by (rule isReadonly_Proxy)
    from r rq lt(1) ip ir tq tp show ?thesis by blast
  next
    case (Some q)
    have rq: "readonly s1 (Obj p) = Some (Obj q, s1)" using ro Some by simp
    from w Some have hq: "heap s1 q = Some (ProxyOf p readonlyHandlers) \<or>
        heap s1 q = Some (ProxyOf p readonlyCollectionHandlers)"
      by (simp add: wf_def)
    with p hs have ne: "q \<noteq> p" by auto
    have ta: "toRaw s1 (Obj a) = Some (Obj a)" using ob1 nr by (rule toRaw_Ordinary)
    have tp: "toRaw s1 (Obj p) = Some (Obj a)" using toRaw_Proxy[OF p] ta by simp
    have tq: "toRaw s1 (Obj q) = Some (Obj a)" using hq toRaw_Proxy[of s1 q p] tp by auto
    have ip: "isProxy s1 (Obj q) = Some True" using hq isProxy_Proxy[of s1 q p] by auto
    have ir: "isReadonly s1 (Obj q) = Some True" using hq isReadonly_Proxy[of s1 q p] by auto
    from r rq ne ip ir tq tp show ?thesis by blast
  qed
qed

lemma accepted_init_object: "accepted (init [ex_object]) 0"
  by (simp add: accepted_Ordinary_iff[of _ _ ex_object] init_def observable_def ex_object_def)

theorem readonly_of_reactive_distinct_witness:
  "wf (init [ex_object]) \<and> accepted (init [ex_object]) 0 \<and>
   (\<exists>p s1 q s2. reactive (init [ex_object]) (Obj 0) = Some (Obj p, s1) \<and>
           readonly s1 (Obj p) = Some (Obj q, s2) \<and>
           q \<noteq> p \<and>
           isProxy s2 (Obj q) = Some True \<and>
           isReadonly s2 (Obj q) = Some True \<and>
           toRaw s2 (Obj q) = Some (Obj 0) \<and>
           toRaw s2 (Obj p) = Some (Obj 0))"
  using readonly_of_reactive_distinct[OF wf_init accepted_init_object] wf_init accepted_init_object
  by blast

subsection \<open>Inputs handed back\<close>

text \<open>
  Claim C9. \<open>reactive(x)\<close> and \<open>readonly(x)\<close> return \<open>x\<close>, and change nothing, when
  \<open>x\<close> is not an object, when it is not extensible, when its raw type is none of
  \<open>Object\<close>, \<open>Array\<close>, \<open>Map\<close>, \<open>Set\<close>, \<open>WeakMap\<close>, \<open>WeakSet\<close>, and when its \<open>SKIP\<close>
  flag is truthy.
\<close>

theorem reactive_readonly_return_input:
  assumes "wf s" and "allocated s x"
    and "isObject s x = Some False
       \<or> isExtensible s x = Some False
       \<or> (\<exists>t. toRawType s x = Some t \<and> t \<notin> {''Object'', ''Array'', ''Map'', ''Set'', ''WeakMap'', ''WeakSet''})
       \<or> (\<exists>v. getProp s x SKIP = Some v \<and> truthy v)"
  shows "reactive s x = Some (x, s) \<and> readonly s x = Some (x, s)"
proof -
  obtain b where "isReadonly s x = Some b" using wf_isReadonly_total[OF assms(1,2)] by blast
  then have "reactive s x = Some (x, s)"
    using createReactiveObject_unchanged[OF assms] by (cases b) (simp_all add: reactive_def)
  moreover have "readonly s x = Some (x, s)"
    using createReactiveObject_unchanged[OF assms] by (simp add: readonly_def)
  ultimately show ?thesis ..
qed

lemma init_frozen_facts:
  "allocated (init [ex_frozen, ex_date]) (Obj 0)"
  "isExtensible (init [ex_frozen, ex_date]) (Obj 0) = Some False"
  "allocated (init [ex_frozen, ex_date]) (Obj 1)"
  "toRawType (init [ex_frozen, ex_date]) (Obj 1) = Some ''Date''"
  "allocated (init [ex_frozen, ex_date]) (Number (Fin 5))"
  "isObject (init [ex_frozen, ex_date]) (Number (Fin 5)) = Some False"
  by (simp_all add: allocated_def isExtensible_def isObject_def typeof_def toRawType_def toTypeString_def
      objectToString_def underlying_Ordinary init_def ex_frozen_def ex_date_def ex_object_def)

lemma init_skipped_facts:
  "allocated (init [ex_skipped]) (Obj 0)"
  "getProp (init [ex_skipped]) (Obj 0) SKIP = Some (Bool True)"
  by (simp_all add: allocated_def getProp_def getFlag_Ordinary init_def ex_skipped_def ex_object_def)

theorem reactive_readonly_return_input_witness:
  "wf (init [ex_frozen, ex_date]) \<and>
   isExtensible (init [ex_frozen, ex_date]) (Obj 0) = Some False \<and>
   reactive (init [ex_frozen, ex_date]) (Obj 0) = Some (Obj 0, init [ex_frozen, ex_date]) \<and>
   readonly (init [ex_frozen, ex_date]) (Obj 0) = Some (Obj 0, init [ex_frozen, ex_date]) \<and>
   toRawType (init [ex_frozen, ex_date]) (Obj 1) = Some ''Date'' \<and>
   reactive (init [ex_frozen, ex_date]) (Obj 1) = Some (Obj 1, init [ex_frozen, ex_date]) \<and>
   readonly (init [ex_frozen, ex_date]) (Obj 1) = Some (Obj 1, init [ex_frozen, ex_date]) \<and>
   isObject (init [ex_frozen, ex_date]) (Number (Fin 5)) = Some False \<and>
   reactive (init [ex_frozen, ex_date]) (Number (Fin 5)) = Some (Number (Fin 5), init [ex_frozen, ex_date]) \<and>
   readonly (init [ex_frozen, ex_date]) (Number (Fin 5)) = Some (Number (Fin 5), init [ex_frozen, ex_date]) \<and>
   wf (init [ex_skipped]) \<and>
   getProp (init [ex_skipped]) (Obj 0) SKIP = Some (Bool True) \<and>
   reactive (init [ex_skipped]) (Obj 0) = Some (Obj 0, init [ex_skipped]) \<and>
   readonly (init [ex_skipped]) (Obj 0) = Some (Obj 0, init [ex_skipped])"
  using reactive_readonly_return_input[OF wf_init init_frozen_facts(1)]
    reactive_readonly_return_input[OF wf_init init_frozen_facts(3)]
    reactive_readonly_return_input[OF wf_init init_frozen_facts(5)]
    reactive_readonly_return_input[OF wf_init init_skipped_facts(1)]
    init_frozen_facts init_skipped_facts wf_init[of "[ex_frozen, ex_date]"] wf_init[of "[ex_skipped]"]
  by simp

text \<open>
  Claim C10. When \<open>isReadonly(x)\<close> holds, \<open>reactive(x)\<close> returns \<open>x\<close> itself and leaves
  the module state, \<open>reactiveMap\<close> included, as it was.
\<close>

theorem reactive_of_readonly:
  assumes "isReadonly s x = Some True"
  shows "reactive s x = Some (x, s)"
  using assms by (simp add: reactive_def)

lemma ex_readonly_facts:
  "isReadonly ex_readonly_state (Obj 1) = Some True"
  by (simp add: isReadonly_def getProp_def getFlag_Proxy[of _ _ 0 readonlyHandlers] handler_get_IS_READONLY
      ex_readonly_state_def)

lemma ex_computed_facts:
  "isReadonly (init [computedObject (ComputedRefImpl_new 0 16 1 0 None)]) (Obj 0) = Some True"
  by (simp add: isReadonly_def getProp_def getFlag_Ordinary[of _ _ "computedObject (ComputedRefImpl_new 0 16 1 0 None)"]
      init_def computedObject_def ComputedRefImpl_new_def)

theorem reactive_of_readonly_witness:
  "isReadonly ex_readonly_state (Obj 1) = Some True \<and>
   reactive ex_readonly_state (Obj 1) = Some (Obj 1, ex_readonly_state) \<and>
   isReadonly (init [computedObject (ComputedRefImpl_new 0 16 1 0 None)]) (Obj 0) = Some True \<and>
   reactive (init [computedObject (ComputedRefImpl_new 0 16 1 0 None)]) (Obj 0) =
     Some (Obj 0, init [computedObject (ComputedRefImpl_new 0 16 1 0 None)])"
  using reactive_of_readonly[OF ex_readonly_facts] reactive_of_readonly[OF ex_computed_facts]
    ex_readonly_facts ex_computed_facts
  by simp

section \<open>Properties of collectionHandlers.ts\<close>

lemma toRaw_reactive_proxy:
  assumes "heap s p = Some (ProxyOf a hs)" "heap s a = Some (Ordinary ob)" "\<not> truthy (props ob RAW)"
  shows "toRaw s (Obj p) = Some (Obj a)"
  using toRaw_Proxy[OF assms(1)] toRaw_Ordinary[OF assms(2,3)] by simp

lemma slotsOf_Ordinary: "heap s a = Some (Ordinary ob) \<Longrightarrow> slotsOf s (Obj a) = Some (slots ob)"
  by (simp add: slotsOf_def)

lemma setSlots_Ordinary:
  "heap s a = Some (Ordinary ob) \<Longrightarrow>
   setSlots s (Obj a) sl = s\<lparr>heap := (heap s)(a \<mapsto> Ordinary (ob\<lparr>slots := sl\<rparr>))\<rparr>"
  by (simp add: setSlots_def)

lemma callMethod_mutable:
  assumes "heap s p = Some (ProxyOf a mutableCollectionHandlers)" "heap s a = Some (Ordinary ob)"
    "keyIn (slots ob) m"
  shows "callMethod s (Obj p) m args = createInstrumentations False False m s (Obj p) args"
  using assms by (simp add: callMethod_def underlying_Ordinary)

lemma findKey_Map:
  assumes "toRaw s k = Some rk"
  shows "findKey s (MapData False es) k =
     Some (if entry_has es k then k else rk, entry_has es k \<or> entry_has es rk)"
  using assms by (simp add: findKey_def native_has_def)

text \<open>
  Claim C3. \<open>m.set(k, v)\<close> on a reactive \<open>Map\<close>: the value written is \<open>v\<close> itself when
  \<open>v\<close> is shallow or readonly, and \<open>toRaw(v)\<close> otherwise; the key used is \<open>k\<close> when the
  target has \<open>k\<close>, and \<open>toRaw(k)\<close> otherwise; the entry is written to the raw target;
  exactly one \<open>ADD\<close> trigger is fired when the target had neither \<open>k\<close> nor \<open>toRaw(k)\<close>,
  exactly one \<open>SET\<close> trigger when it had the key and the value written is not the stored
  one, and none when the value written is the stored one. The trigger is fired in the
  store that has the entry written. The call returns the proxy.
\<close>

theorem set_triggers:
  assumes p: "heap s p = Some (ProxyOf a mutableCollectionHandlers)"
    and a: "heap s a = Some (Ordinary ob)"
    and raw: "\<not> truthy (props ob RAW)"
    and sl: "slots ob = MapData False es"
    and sh: "isShallow s v = Some sh"
    and ro: "isReadonly s v = Some ro"
    and rv: "toRaw s v = Some rv"
    and rk: "toRaw s k = Some rk"
  shows "\<exists>s'. 
     (let v' = (if sh \<or> ro then v else rv);
          key = (if entry_has es k then k else rk);
          hadKey = (entry_has es k \<or> entry_has es rk);
          oldValue = entry_get es key
      in callMethod s (Obj p) M_set [k, v] = Some (Obj p, s') \<and>
         heap s' = (heap s)(a \<mapsto> Ordinary (ob\<lparr>slots := MapData False (entry_set es key v')\<rparr>)) \<and>
         triggered s' = triggered s @
           (if \<not> hadKey then [(Trigger (Obj a) ADD key v', heap s')]
            else if v' \<noteq> oldValue then [(Trigger (Obj a) SET key v', heap s')]
            else []) \<and>
         nxt s' = nxt s \<and> reactiveMap s' = reactiveMap s \<and> readonlyMap s' = readonlyMap s)"
proof -
  have k: "keyIn (slots ob) M_set" using sl by (simp add: keyIn_def)
  have uw: "unwrapValue False s v = Some (if sh \<or> ro then v else rv)"
    using sh ro rv by (cases sh; cases ro) (simp_all add: unwrapValue_def)
  have tr: "toRaw s (Obj p) = Some (Obj a)" using p a raw by (rule toRaw_reactive_proxy)
  show ?thesis
    unfolding callMethod_mutable[OF p a k]
    by (simp add: createInstrumentations_def set_instr_def arg_def uw tr slotsOf_Ordinary[OF a] sl
        findKey_Map[OF rk] native_get_def native_set_def setSlots_Ordinary[OF a] trigger_def
        hasChanged_def Let_def)
qed


lemma toRaw_primitive:
  "toRaw s Undefined = Some Undefined"
  "toRaw s Null = Some Null"
  "toRaw s (Bool b) = Some (Bool b)"
  "toRaw s (Number n) = Some (Number n)"
  "toRaw s (BigInt i) = Some (BigInt i)"
  "toRaw s (Str x) = Some (Str x)"
  "toRaw s (Sym y) = Some (Sym y)"
  by (subst toRaw.simps, simp add: getProp_def)+

lemma flags_primitive:
  "isShallow s (Number n) = Some False" "isReadonly s (Number n) = Some False"
  "isShallow s (Str x) = Some False" "isReadonly s (Str x) = Some False"
  by (simp_all add: isShallow_def isReadonly_def getProp_def)

lemma ex_reactive_map_facts:
  "heap ex_reactive_map_state 1 = Some (ProxyOf 0 mutableCollectionHandlers)"
  "heap ex_reactive_map_state 0 = Some (Ordinary ex_map_x1)"
  "\<not> truthy (props ex_map_x1 RAW)"
  "slots ex_map_x1 = MapData False [(Str ''x'', Number (Fin 1))]"
  by (simp_all add: ex_reactive_map_state_def ex_map_x1_def ex_map_def)

lemma ex_reactive_map_triggered: "triggered ex_reactive_map_state = []"
  by (simp add: ex_reactive_map_state_def)

theorem set_triggers_witness:
  "heap ex_reactive_map_state 1 = Some (ProxyOf 0 mutableCollectionHandlers) \<and>
   heap ex_reactive_map_state 0 = Some (Ordinary ex_map_x1) \<and>
   slots ex_map_x1 = MapData False [(Str ''x'', Number (Fin 1))] \<and>
   (\<exists>s'. callMethod ex_reactive_map_state (Obj 1) M_set [Str ''y'', Number (Fin 2)] = Some (Obj 1, s') \<and>
      triggered s' = [(Trigger (Obj 0) ADD (Str ''y'') (Number (Fin 2)), heap s')]) \<and>
   (\<exists>s'. callMethod ex_reactive_map_state (Obj 1) M_set [Str ''x'', Number (Fin 2)] = Some (Obj 1, s') \<and>
      triggered s' = [(Trigger (Obj 0) SET (Str ''x'') (Number (Fin 2)), heap s')]) \<and>
   (\<exists>s'. callMethod ex_reactive_map_state (Obj 1) M_set [Str ''x'', Number (Fin 1)] = Some (Obj 1, s') \<and>
      triggered s' = [])"
  using set_triggers[OF ex_reactive_map_facts flags_primitive(1,2) toRaw_primitive(4,6),
      of "Fin 2" "''y''"]
    set_triggers[OF ex_reactive_map_facts flags_primitive(1,2) toRaw_primitive(4,6),
      of "Fin 2" "''x''"]
    set_triggers[OF ex_reactive_map_facts flags_primitive(1,2) toRaw_primitive(4,6),
      of "Fin 1" "''x''"]
    ex_reactive_map_facts
  by (auto simp: Let_def sameValueZero_def normZero_def ex_reactive_map_triggered)

lemma findKey_general:
  assumes "toRaw s k = Some rk" "native_has sl k = Some h0" "native_has sl rk = Some h1"
  shows "findKey s sl k = Some (if h0 then k else rk, h0 \<or> h1)"
  using assms by (cases h0) (simp_all add: findKey_def)

lemma native_has_total: "sl \<noteq> NoSlots \<Longrightarrow> \<exists>b. native_has sl k = Some b"
  by (cases sl) (auto simp: native_has_def)

lemma keyIn_not_NoSlots: "keyIn sl m \<Longrightarrow> sl \<noteq> NoSlots"
  by (cases sl) (simp_all add: keyIn_def)

lemma keyIn_clear_delete: "keyIn sl M_clear \<Longrightarrow> keyIn sl M_delete"
  by (cases sl) (simp_all add: keyIn_def)

lemma native_delete_total: "sl \<noteq> NoSlots \<Longrightarrow> \<exists>r sl'. native_delete sl k = Some (r, sl')"
  by (cases sl) (auto simp: native_delete_def)

lemma native_clear_total: "keyIn sl M_clear \<Longrightarrow> \<exists>sl'. native_clear sl = Some sl'"
  by (cases sl) (simp_all add: native_clear_def keyIn_def)

text \<open>
  Claim C4. On a reactive collection, \<open>delete(k)\<close> fires one \<open>DELETE\<close> trigger when the
  target had \<open>k\<close> or \<open>toRaw(k)\<close> and none otherwise, and returns what the target's own
  \<open>delete\<close> returns; \<open>clear()\<close> fires one \<open>CLEAR\<close> trigger when the size was not \<open>0\<close> and
  none otherwise. Each trigger is fired in the store left by the target's own \<open>delete\<close>
  or \<open>clear\<close>.
\<close>

theorem delete_clear_triggers:
  assumes p: "heap s p = Some (ProxyOf a mutableCollectionHandlers)"
    and a: "heap s a = Some (Ordinary ob)"
    and raw: "\<not> truthy (props ob RAW)"
    and kin: "keyIn (slots ob) M_delete"
    and rk: "toRaw s k = Some rk"
  shows "(\<exists>s' result sl'.
            (let key = (if native_has (slots ob) k = Some True then k else rk);
                 hadKey = (native_has (slots ob) k = Some True \<or> native_has (slots ob) rk = Some True)
             in native_delete (slots ob) key = Some (result, sl') \<and>
                callMethod s (Obj p) M_delete [k] = Some (Bool result, s') \<and>
                heap s' = (heap s)(a \<mapsto> Ordinary (ob\<lparr>slots := sl'\<rparr>)) \<and>
                triggered s' = triggered s @
                  (if hadKey then [(Trigger (Obj a) DELETE key Undefined, heap s')] else []))) \<and>
         (keyIn (slots ob) M_clear \<longrightarrow>
            (\<exists>s' sl'.
                native_clear (slots ob) = Some sl' \<and>
                callMethod s (Obj p) M_clear [] = Some (Undefined, s') \<and>
                heap s' = (heap s)(a \<mapsto> Ordinary (ob\<lparr>slots := sl'\<rparr>)) \<and>
                triggered s' = triggered s @
                  (if native_size (slots ob) \<noteq> Number (Fin 0)
                   then [(Trigger (Obj a) CLEAR Undefined Undefined, heap s')] else [])))"
proof (intro conjI impI)
  have tr: "toRaw s (Obj p) = Some (Obj a)" using p a raw by (rule toRaw_reactive_proxy)
  have ns: "slots ob \<noteq> NoSlots" using kin by (rule keyIn_not_NoSlots)
  obtain h0 where h0: "native_has (slots ob) k = Some h0" using native_has_total[OF ns] by blast
  obtain h1 where h1: "native_has (slots ob) rk = Some h1" using native_has_total[OF ns] by blast
  let ?key = "if h0 then k else rk"
  obtain r sl' where d: "native_delete (slots ob) ?key = Some (r, sl')"
    using native_delete_total[OF ns] by blast
  show "\<exists>s' result sl'.
            (let key = (if native_has (slots ob) k = Some True then k else rk);
                 hadKey = (native_has (slots ob) k = Some True \<or> native_has (slots ob) rk = Some True)
             in native_delete (slots ob) key = Some (result, sl') \<and>
                callMethod s (Obj p) M_delete [k] = Some (Bool result, s') \<and>
                heap s' = (heap s)(a \<mapsto> Ordinary (ob\<lparr>slots := sl'\<rparr>)) \<and>
                triggered s' = triggered s @
                  (if hadKey then [(Trigger (Obj a) DELETE key Undefined, heap s')] else []))"
    unfolding callMethod_mutable[OF p a kin]
    using d h0 h1
    by (simp add: createInstrumentations_def delete_instr_def arg_def tr slotsOf_Ordinary[OF a]
        findKey_general[OF rk h0 h1] setSlots_Ordinary[OF a] trigger_def Let_def)
next
  assume kc: "keyIn (slots ob) M_clear"
  have tr: "toRaw s (Obj p) = Some (Obj a)" using p a raw by (rule toRaw_reactive_proxy)
  obtain sl' where c: "native_clear (slots ob) = Some sl'" using native_clear_total[OF kc] by blast
  have sz: "strictEquals (native_size (slots ob)) (Number (Fin 0)) \<longleftrightarrow>
            native_size (slots ob) = Number (Fin 0)"
    using kc by (cases "slots ob") (auto simp: keyIn_def native_size_def strictEquals_def
        sameValueZero_def normZero_def)
  show "\<exists>s' sl'.
                native_clear (slots ob) = Some sl' \<and>
                callMethod s (Obj p) M_clear [] = Some (Undefined, s') \<and>
                heap s' = (heap s)(a \<mapsto> Ordinary (ob\<lparr>slots := sl'\<rparr>)) \<and>
                triggered s' = triggered s @
                  (if native_size (slots ob) \<noteq> Number (Fin 0)
                   then [(Trigger (Obj a) CLEAR Undefined Undefined, heap s')] else [])"
    unfolding callMethod_mutable[OF p a kc]
    using c
    by (simp add: createInstrumentations_def clear_instr_def tr slotsOf_Ordinary[OF a]
        setSlots_Ordinary[OF a] trigger_def Let_def sz)
qed

text \<open>
  Claim C8. On a readonly collection proxy, each of \<open>add\<close>, \<open>set\<close>, \<open>delete\<close> and
  \<open>clear\<close> that the target has leaves the whole state as it is, the target and the
  fired triggers included, and returns \<open>false\<close> for \<open>delete\<close>, \<open>undefined\<close> for \<open>clear\<close>
  and the proxy for \<open>add\<close> and \<open>set\<close>.
\<close>

theorem readonly_collection_methods:
  assumes p: "heap s p = Some (ProxyOf t readonlyCollectionHandlers)"
    and u: "underlying (heap s) t = Some (b, ob)"
    and kin: "keyIn (slots ob) m"
  shows "callMethod s (Obj p) m args =
           Some (if m = M_delete then Bool False else if m = M_clear then Undefined else Obj p, s)"
  using assms
  by (cases m) (simp_all add: callMethod_def createInstrumentations_def createReadonlyMethod_def opType_def)


lemma ex_map_x1_keyIn:
  "keyIn (slots ex_map_x1) M_delete" "keyIn (slots ex_map_x1) M_clear" "keyIn (slots ex_map_x1) M_set"
  by (simp_all add: keyIn_def ex_map_x1_def ex_map_def)

lemma ex_reactive_weakmap_facts:
  "heap ex_reactive_weakmap_state 1 = Some (ProxyOf 0 mutableCollectionHandlers)"
  "heap ex_reactive_weakmap_state 0 = Some (Ordinary ex_weakmap_sym)"
  "\<not> truthy (props ex_weakmap_sym RAW)"
  "keyIn (slots ex_weakmap_sym) M_delete"
  "triggered ex_reactive_weakmap_state = []"
  by (simp_all add: ex_reactive_weakmap_state_def ex_weakmap_sym_def keyIn_def)

theorem delete_clear_triggers_witness:
  "heap ex_reactive_map_state 1 = Some (ProxyOf 0 mutableCollectionHandlers) \<and>
   heap ex_reactive_map_state 0 = Some (Ordinary ex_map_x1) \<and>
   slots ex_map_x1 = MapData False [(Str ''x'', Number (Fin 1))] \<and>
   (\<exists>s'. callMethod ex_reactive_map_state (Obj 1) M_delete [Str ''x''] = Some (Bool True, s') \<and>
      heap s' 0 = Some (Ordinary (ex_map_x1\<lparr>slots := MapData False []\<rparr>)) \<and>
      triggered s' = [(Trigger (Obj 0) DELETE (Str ''x'') Undefined, heap s')]) \<and>
   (\<exists>s'. callMethod ex_reactive_map_state (Obj 1) M_delete [Str ''y''] = Some (Bool False, s') \<and>
      triggered s' = []) \<and>
   (\<exists>s'. callMethod ex_reactive_map_state (Obj 1) M_clear [] = Some (Undefined, s') \<and>
      heap s' 0 = Some (Ordinary (ex_map_x1\<lparr>slots := MapData False []\<rparr>)) \<and>
      triggered s' = [(Trigger (Obj 0) CLEAR Undefined Undefined, heap s')]) \<and>
   heap ex_reactive_weakmap_state 1 = Some (ProxyOf 0 mutableCollectionHandlers) \<and>
   heap ex_reactive_weakmap_state 0 = Some (Ordinary ex_weakmap_sym) \<and>
   slots ex_weakmap_sym = MapData True [(Sym (Unique 0), Number (Fin 1))] \<and>
   (\<exists>s'. callMethod ex_reactive_weakmap_state (Obj 1) M_delete [Sym (Unique 0)] =
        Some (Bool True, s') \<and>
      heap s' 0 = Some (Ordinary (ex_weakmap_sym\<lparr>slots := MapData True []\<rparr>)) \<and>
      triggered s' = [(Trigger (Obj 0) DELETE (Sym (Unique 0)) Undefined, heap s')]) \<and>
   (\<exists>s'. callMethod ex_reactive_weakmap_state (Obj 1) M_delete [Sym (Registered ''k'')] =
        Some (Bool False, s') \<and>
      triggered s' = [])"
proof -
  have m: "(\<exists>s'. callMethod ex_reactive_map_state (Obj 1) M_delete [Str ''x''] = Some (Bool True, s') \<and>
      heap s' 0 = Some (Ordinary (ex_map_x1\<lparr>slots := MapData False []\<rparr>)) \<and>
      triggered s' = [(Trigger (Obj 0) DELETE (Str ''x'') Undefined, heap s')]) \<and>
   (\<exists>s'. callMethod ex_reactive_map_state (Obj 1) M_delete [Str ''y''] = Some (Bool False, s') \<and>
      triggered s' = []) \<and>
   (\<exists>s'. callMethod ex_reactive_map_state (Obj 1) M_clear [] = Some (Undefined, s') \<and>
      heap s' 0 = Some (Ordinary (ex_map_x1\<lparr>slots := MapData False []\<rparr>)) \<and>
      triggered s' = [(Trigger (Obj 0) CLEAR Undefined Undefined, heap s')])"
    using delete_clear_triggers[OF ex_reactive_map_facts(1,2,3) ex_map_x1_keyIn(1) toRaw_primitive(6),
        of "''x''"]
      delete_clear_triggers[OF ex_reactive_map_facts(1,2,3) ex_map_x1_keyIn(1) toRaw_primitive(6),
        of "''y''"]
      ex_reactive_map_facts ex_map_x1_keyIn
    by (auto simp: Let_def sameValueZero_def normZero_def ex_reactive_map_triggered
        native_has_def native_delete_def native_clear_def native_size_def)
  have w: "(\<exists>s'. callMethod ex_reactive_weakmap_state (Obj 1) M_delete [Sym (Unique 0)] =
        Some (Bool True, s') \<and>
      heap s' 0 = Some (Ordinary (ex_weakmap_sym\<lparr>slots := MapData True []\<rparr>)) \<and>
      triggered s' = [(Trigger (Obj 0) DELETE (Sym (Unique 0)) Undefined, heap s')]) \<and>
   (\<exists>s'. callMethod ex_reactive_weakmap_state (Obj 1) M_delete [Sym (Registered ''k'')] =
        Some (Bool False, s') \<and>
      triggered s' = [])"
    using delete_clear_triggers[OF ex_reactive_weakmap_facts(1,2,3,4) toRaw_primitive(7),
        of "Unique 0"]
      delete_clear_triggers[OF ex_reactive_weakmap_facts(1,2,3,4) toRaw_primitive(7),
        of "Registered ''k''"]
      ex_reactive_weakmap_facts
    by (auto simp: Let_def sameValueZero_def normZero_def ex_weakmap_sym_def
        native_has_def native_delete_def canBeHeldWeakly_def keyIn_def)
  show ?thesis
    using m w ex_reactive_map_facts(1,2,4) ex_reactive_weakmap_facts(1,2)
    by (simp add: ex_weakmap_sym_def)
qed

lemma ex_readonly_map_facts:
  "heap ex_readonly_map_state 1 = Some (ProxyOf 0 readonlyCollectionHandlers)"
  "underlying (heap ex_readonly_map_state) 0 = Some (0, ex_map_x1)"
  by (simp_all add: ex_readonly_map_state_def underlying_Ordinary)

theorem readonly_collection_methods_witness:
  "heap ex_readonly_map_state 1 = Some (ProxyOf 0 readonlyCollectionHandlers) \<and>
   callMethod ex_readonly_map_state (Obj 1) M_set [Str ''x'', Number (Fin 2)] =
     Some (Obj 1, ex_readonly_map_state) \<and>
   callMethod ex_readonly_map_state (Obj 1) M_delete [Str ''x''] =
     Some (Bool False, ex_readonly_map_state) \<and>
   callMethod ex_readonly_map_state (Obj 1) M_clear [] =
     Some (Undefined, ex_readonly_map_state)"
  using readonly_collection_methods[OF ex_readonly_map_facts ex_map_x1_keyIn(3)]
    readonly_collection_methods[OF ex_readonly_map_facts ex_map_x1_keyIn(1)]
    readonly_collection_methods[OF ex_readonly_map_facts ex_map_x1_keyIn(2)]
    ex_readonly_map_facts
  by simp

section \<open>Properties of effectScope.ts\<close>

lemma active_stopped [simp]: "\<not> active (stopped sc)"
  by (simp add: stopped_def)

lemma children_stopped [simp]: "children (stopped sc) = []"
  by (simp add: stopped_def children_def split: option.splits)

lemma stops_refl: "stops s s"
  by (auto simp: stops_def)

lemma stops_inactive_same:
  "stops s s' \<Longrightarrow> x < length (store s) \<Longrightarrow> \<not> active (store s ! x) \<Longrightarrow> store s' ! x = store s ! x"
  by (auto simp: stops_def)

lemma stops_active_same:
  "stops s s' \<Longrightarrow> x < length (store s) \<Longrightarrow> active (store s' ! x) \<Longrightarrow> store s' ! x = store s ! x"
  by (auto simp: stops_def)

lemma stops_cases:
  "stops s s' \<Longrightarrow> x < length (store s) \<Longrightarrow>
   store s' ! x = store s ! x \<or> (active (store s ! x) \<and> store s' ! x = stopped (store s ! x))"
  by (auto simp: stops_def)

lemma stops_length: "stops s s' \<Longrightarrow> length (store s') = length (store s)"
  by (simp add: stops_def)

lemma stops_ordered:
  assumes "stops s s'" "ordered s"
  shows "ordered s'"
  unfolding ordered_def
proof (intro allI impI ballI)
  fix x e assume x: "x < length (store s')" and e: "e \<in> set (children (store s' ! x))"
  from x assms(1) have x': "x < length (store s)" by (simp add: stops_length)
  from stops_cases[OF assms(1) x'] e have "e \<in> set (children (store s ! x))"
    by auto
  with assms(2) x' have "\<exists>c. e = Some c \<and> x < c \<and> c < length (store s)"
    by (auto simp: ordered_def)
  then show "\<exists>c. e = Some c \<and> x < c \<and> c < length (store s')"
    using assms(1) by (simp add: stops_length)
qed

lemma stops_trans:
  assumes 1: "stops s s1" and 2: "stops s1 s2"
  shows "stops s s2"
proof -
  have len: "length (store s1) = length (store s)" "length (store s2) = length (store s)"
    using 1 2 by (simp_all add: stops_length)
  from 1 obtain n1 where n1: "trace s1 = trace s @ n1"
    and f1: "\<And>d. filter (\<lambda>e. scope_of e = d) n1 =
           (if d < length (store s) \<and> active (store s ! d) \<and> \<not> active (store s1 ! d)
            then own_events (store s ! d) d else [])"
    unfolding stops_def by blast
  from 2 obtain n2 where n2: "trace s2 = trace s1 @ n2"
    and f2: "\<And>d. filter (\<lambda>e. scope_of e = d) n2 =
           (if d < length (store s1) \<and> active (store s1 ! d) \<and> \<not> active (store s2 ! d)
            then own_events (store s1 ! d) d else [])"
    unfolding stops_def by blast
  have nodes: "\<forall>x < length (store s).
        store s2 ! x = store s ! x \<or>
        (active (store s ! x) \<and> store s2 ! x = stopped (store s ! x))"
  proof (intro allI impI)
    fix x assume x: "x < length (store s)"
    from stops_cases[OF 1 x] stops_cases[OF 2, of x] x len
    show "store s2 ! x = store s ! x \<or>
        (active (store s ! x) \<and> store s2 ! x = stopped (store s ! x))"
      by auto
  qed
  have tr: "trace s2 = trace s @ (n1 @ n2)" using n1 n2 by simp
  have fl: "\<forall>d. filter (\<lambda>e. scope_of e = d) (n1 @ n2) =
           (if d < length (store s) \<and> active (store s ! d) \<and> \<not> active (store s2 ! d)
            then own_events (store s ! d) d else [])"
  proof
    fix d
    show "filter (\<lambda>e. scope_of e = d) (n1 @ n2) =
           (if d < length (store s) \<and> active (store s ! d) \<and> \<not> active (store s2 ! d)
            then own_events (store s ! d) d else [])"
    proof (cases "d < length (store s)")
      case False
      then show ?thesis using f1[of d] f2[of d] len by simp
    next
      case True
      from stops_cases[OF 1 True] stops_cases[OF 2, of d] True len
      show ?thesis using f1[of d] f2[of d] True len by auto
    qed
  qed
  have cl: "\<forall>x < length (store s). active (store s ! x) \<longrightarrow> \<not> active (store s2 ! x) \<longrightarrow>
        (\<forall>c. Some c \<in> set (children (store s ! x)) \<longrightarrow> c < length (store s) \<longrightarrow>
           \<not> active (store s2 ! c))"
  proof (intro allI impI)
    fix x c
    assume x: "x < length (store s)" and a: "active (store s ! x)" and na: "\<not> active (store s2 ! x)"
      and c: "Some c \<in> set (children (store s ! x))" and cl: "c < length (store s)"
    show "\<not> active (store s2 ! c)"
    proof (cases "active (store s1 ! x)")
      case True
      then have same: "store s1 ! x = store s ! x" using stops_active_same[OF 1 x] by simp
      from 2 x len True na same c cl show ?thesis
        unfolding stops_def by auto
    next
      case False
      with 1 x a c cl have nc: "\<not> active (store s1 ! c)" unfolding stops_def by auto
      from stops_inactive_same[OF 2, of c] nc len cl show ?thesis by simp
    qed
  qed
  show ?thesis unfolding stops_def using len 1 2 nodes tr fl cl
    by (auto simp: stops_def)
qed


lemma filter_own_events:
  "filter (\<lambda>e. scope_of e = d) (own_events sc c) = (if d = c then own_events sc c else [])"
  by (auto simp: own_events_def filter_empty_conv)

lemma stops_finish:
  assumes c: "c < length (store s)" and act: "active (store s ! c)"
    and s3: "store s3 = (store s)[c := m]" "\<not> active m"
      "trace s3 = trace s @ own_events (store s ! c) c"
      "activeEffectScope s3 = activeEffectScope s"
    and 34: "stops s3 s4"
    and ch: "\<forall>d. Some d \<in> set (children (store s ! c)) \<longrightarrow> d < length (store s) \<longrightarrow>
               \<not> active (store s4 ! d)"
    and notc: "Some c \<notin> set (children (store s ! c))"
    and s': "store s' = (store s4)[c := stopped (store s ! c)]" "trace s' = trace s4"
      "activeEffectScope s' = activeEffectScope s4"
  shows "stops s s'"
proof -
  have len3: "length (store s3) = length (store s)" using s3(1) by simp
  have len4: "length (store s4) = length (store s)" using 34 len3 by (simp add: stops_length)
  have len': "length (store s') = length (store s)" using s'(1) len4 by simp
  have at_c: "store s' ! c = stopped (store s ! c)" using s'(1) c len4 by simp
  have other': "\<And>x. x \<noteq> c \<Longrightarrow> store s' ! x = store s4 ! x" using s'(1) by simp
  have other3: "\<And>x. x \<noteq> c \<Longrightarrow> store s3 ! x = store s ! x" using s3(1) by simp
  from 34 obtain n where n: "trace s4 = trace s3 @ n"
    and fn: "\<And>d. filter (\<lambda>e. scope_of e = d) n =
           (if d < length (store s3) \<and> active (store s3 ! d) \<and> \<not> active (store s4 ! d)
            then own_events (store s3 ! d) d else [])"
    unfolding stops_def by blast
  have c3: "\<not> active (store s3 ! c)" using s3(1,2) c by simp
  have nodes: "\<forall>x < length (store s).
        store s' ! x = store s ! x \<or>
        (active (store s ! x) \<and> store s' ! x = stopped (store s ! x))"
  proof (intro allI impI)
    fix x assume x: "x < length (store s)"
    show "store s' ! x = store s ! x \<or>
        (active (store s ! x) \<and> store s' ! x = stopped (store s ! x))"
    proof (cases "x = c")
      case True
      with at_c act show ?thesis by simp
    next
      case False
      with stops_cases[OF 34, of x] x len3 other'[of x] other3[of x] show ?thesis by auto
    qed
  qed
  have tr: "trace s' = trace s @ (own_events (store s ! c) c @ n)"
    using s'(2) n s3(3) by simp
  have fl: "\<forall>d. filter (\<lambda>e. scope_of e = d) (own_events (store s ! c) c @ n) =
           (if d < length (store s) \<and> active (store s ! d) \<and> \<not> active (store s' ! d)
            then own_events (store s ! d) d else [])"
  proof
    fix d
    show "filter (\<lambda>e. scope_of e = d) (own_events (store s ! c) c @ n) =
           (if d < length (store s) \<and> active (store s ! d) \<and> \<not> active (store s' ! d)
            then own_events (store s ! d) d else [])"
    proof (cases "d = c")
      case True
      with fn[of c] c3 c act at_c show ?thesis by (simp add: filter_own_events)
    next
      case False
      with fn[of d] other'[of d] other3[of d] len3 show ?thesis
        by (simp add: filter_own_events)
    qed
  qed
  have cl: "\<forall>x < length (store s). active (store s ! x) \<longrightarrow> \<not> active (store s' ! x) \<longrightarrow>
        (\<forall>e. Some e \<in> set (children (store s ! x)) \<longrightarrow> e < length (store s) \<longrightarrow>
           \<not> active (store s' ! e))"
  proof (intro allI impI)
    fix x e
    assume x: "x < length (store s)" and a: "active (store s ! x)" and na: "\<not> active (store s' ! x)"
      and e: "Some e \<in> set (children (store s ! x))" and el: "e < length (store s)"
    have e4: "\<not> active (store s4 ! e)"
    proof (cases "x = c")
      case True
      with ch e el show ?thesis by simp
    next
      case False
      with 34 x a na e el other'[of x] other3[of x] len3 show ?thesis
        unfolding stops_def by auto
    qed
    show "\<not> active (store s' ! e)"
    proof (cases "e = c")
      case True
      with at_c show ?thesis by simp
    next
      case False
      with e4 other'[of e] show ?thesis by simp
    qed
  qed
  have aes: "activeEffectScope s' = activeEffectScope s"
    using s'(3) s3(4) 34 by (simp add: stops_def)
  show ?thesis unfolding stops_def using len' aes nodes tr fl cl by blast
qed

lemma desc_trans:
  assumes "d \<in> descendants s a" "x \<in> descendants s d"
  shows "x \<in> descendants s a"
  using assms(2,1) by (induction rule: descendants.induct) (auto intro: descendants.step)

lemma desc_child:
  assumes "a < length (store s)" "Some d \<in> set (children (store s ! a))" "x \<in> descendants s d"
  shows "x \<in> descendants s a"
proof -
  have "d \<in> descendants s a" using assms(1,2) by (auto intro: descendants.intros)
  then show ?thesis using assms(3) by (rule desc_trans)
qed

lemma desc_mono:
  assumes len: "length (store t) = length (store s)"
    and ch: "\<forall>x < length (store s). children (store t ! x) = children (store s ! x) \<or>
                                     children (store t ! x) = []"
    and x: "x \<in> descendants t r"
  shows "x \<in> descendants s r"
  using x
proof (induction rule: descendants.induct)
  case base
  show ?case by (rule descendants.base)
next
  case (step d c)
  from step.hyps(2) len have d: "d < length (store s)" by simp
  with ch step.hyps(3) have "Some c \<in> set (children (store s ! d))" by auto
  with step.IH d show ?case by (rule descendants.step)
qed

lemma stops_children:
  assumes "stops s t" "x < length (store s)"
  shows "children (store t ! x) = children (store s ! x) \<or> children (store t ! x) = []"
  using stops_cases[OF assms] by auto

lemma desc_stops:
  assumes "stops s t" "x \<in> descendants t r"
  shows "x \<in> descendants s r"
  using stops_length[OF assms(1)] stops_children[OF assms(1)] assms(2)
  by (intro desc_mono[of t s]) auto

lemma desc_ge:
  assumes "ordered s" "d \<in> descendants s a"
  shows "a \<le> d"
  using assms(2)
proof (induction rule: descendants.induct)
  case base
  show ?case by simp
next
  case (step d c)
  with assms(1) have "d < c" unfolding ordered_def by blast
  with step.IH show ?case by simp
qed

lemma andThen_simps [simp]:
  "andThen None f = None"
  "andThen (Some (Some x, s)) f = Some (Some x, s)"
  "andThen (Some (None, s)) f = f s"
  by (simp_all add: andThen_def)

lemma quiet_child:
  assumes "c < length (store s)" "Some d \<in> set (children (store s ! c))" "quiet_from cb s c"
  shows "quiet_from cb s d"
  unfolding quiet_from_def
proof (intro ballI impI)
  fix x assume x: "x \<in> descendants s d" "x < length (store s)"
  from assms(1,2) x(1) have "x \<in> descendants s c" by (rule desc_child)
  with assms(3) x(2) show "quiet_scope cb (store s ! x)" by (simp add: quiet_from_def)
qed

lemma quiet_stops:
  assumes st: "stops s t" and q: "quiet_from cb s c"
  shows "quiet_from cb t c"
  unfolding quiet_from_def
proof (intro ballI impI)
  fix d assume d: "d \<in> descendants t c" "d < length (store t)"
  from desc_stops[OF st d(1)] have ds: "d \<in> descendants s c" .
  from d(2) st have dl: "d < length (store s)" by (simp add: stops_length)
  from q ds dl have qs: "quiet_scope cb (store s ! d)" by (simp add: quiet_from_def)
  from stops_cases[OF st dl] show "quiet_scope cb (store t ! d)"
  proof
    assume "store t ! d = store s ! d"
    with qs show ?thesis by simp
  next
    assume "active (store s ! d) \<and> store t ! d = stopped (store s ! d)"
    then show ?thesis by (simp add: quiet_scope_def stopped_def)
  qed
qed

lemma stopChildren_stops:
  assumes f: "\<And>s d. ordered s \<Longrightarrow> length (store s) = L \<Longrightarrow> d < L \<Longrightarrow> c < d \<Longrightarrow>
     quiet_from cb s d \<Longrightarrow>
     \<exists>s'. f s d = Some (None, s') \<and> stops_from s d s'"
  shows "ordered s \<Longrightarrow> length (store s) = L \<Longrightarrow> c < L \<Longrightarrow> scopes (store s ! c) = Some ch \<Longrightarrow>
     i + k = length ch \<Longrightarrow> quiet_from cb s c \<Longrightarrow>
     \<exists>s'. stopChildren f s c i k = Some (None, s') \<and> stops s s' \<and>
          (\<forall>j. i \<le> j \<longrightarrow> j < length ch \<longrightarrow> (\<exists>d. ch ! j = Some d \<and> \<not> active (store s' ! d))) \<and>
          (\<forall>x \<le> c. store s' ! x = store s ! x) \<and>
          (\<forall>x < L. active (store s ! x) \<longrightarrow> \<not> active (store s' ! x) \<longrightarrow> x \<in> descendants s c)"
proof (induction k arbitrary: s i)
  case 0
  then show ?case by (simp add: stops_refl)
next
  case (Suc k)
  from Suc.prems have i: "i < length ch" by simp
  then have mem: "ch ! i \<in> set (children (store s ! c))"
    using Suc.prems(4) by (simp add: children_def)
  with Suc.prems(1,2,3) obtain d where d: "ch ! i = Some d" "c < d" "d < L"
    unfolding ordered_def by blast
  have cl: "c < length (store s)" using Suc.prems(2,3) by simp
  have qd: "quiet_from cb s d" using cl mem Suc.prems(6) unfolding d(1) by (rule quiet_child)
  from f[OF Suc.prems(1,2) d(3) d(2) qd] obtain s1 where s1: "f s d = Some (None, s1)" "stops s s1"
    "\<not> active (store s1 ! d)" "\<forall>x < d. store s1 ! x = store s ! x"
    "\<forall>x < L. active (store s ! x) \<longrightarrow> \<not> active (store s1 ! x) \<longrightarrow> x \<in> descendants s d"
    unfolding stops_from_def using Suc.prems(2) by blast
  have len1: "length (store s1) = L" using s1(2) Suc.prems(2) by (simp add: stops_length)
  have c1: "store s1 ! c = store s ! c" using s1(4) d(2) by simp
  have o1: "ordered s1" using s1(2) Suc.prems(1) by (rule stops_ordered)
  have q1: "quiet_from cb s1 c" using s1(2) Suc.prems(6) by (rule quiet_stops)
  from Suc.IH[OF o1 len1 Suc.prems(3), of "Suc i"] Suc.prems(4,5) c1 q1
  obtain s' where s': "stopChildren f s1 c (Suc i) k = Some (None, s')" "stops s1 s'"
    "\<forall>j. Suc i \<le> j \<longrightarrow> j < length ch \<longrightarrow> (\<exists>d. ch ! j = Some d \<and> \<not> active (store s' ! d))"
    "\<forall>x \<le> c. store s' ! x = store s1 ! x"
    "\<forall>x < L. active (store s1 ! x) \<longrightarrow> \<not> active (store s' ! x) \<longrightarrow> x \<in> descendants s1 c"
    by auto
  have run: "stopChildren f s c i (Suc k) = Some (None, s')"
    using Suc.prems(2,3,4) i d(1) s1(1) s'(1) by (simp add: lookup_def)
  have st: "stops s s'" using s1(2) s'(2) by (rule stops_trans)
  have d': "\<not> active (store s' ! d)"
    using stops_inactive_same[OF s'(2), of d] s1(3) d(3) len1 by simp
  have kids: "\<forall>j. i \<le> j \<longrightarrow> j < length ch \<longrightarrow> (\<exists>d. ch ! j = Some d \<and> \<not> active (store s' ! d))"
  proof (intro allI impI)
    fix j assume j: "i \<le> j" "j < length ch"
    show "\<exists>d. ch ! j = Some d \<and> \<not> active (store s' ! d)"
    proof (cases "j = i")
      case True
      with d(1) d' show ?thesis by simp
    next
      case False
      with j s'(3) show ?thesis by simp
    qed
  qed
  have low: "\<forall>x \<le> c. store s' ! x = store s ! x"
    using s'(4) s1(4) d(2) by simp
  have reach: "\<forall>x < L. active (store s ! x) \<longrightarrow> \<not> active (store s' ! x) \<longrightarrow> x \<in> descendants s c"
  proof (intro allI impI)
    fix x assume x: "x < L" and a: "active (store s ! x)" and na: "\<not> active (store s' ! x)"
    show "x \<in> descendants s c"
    proof (cases "active (store s1 ! x)")
      case True
      with s'(5) x na have "x \<in> descendants s1 c" by simp
      with s1(2) show ?thesis by (rule desc_stops)
    next
      case False
      with s1(5) x a have "x \<in> descendants s d" by simp
      moreover have "Some d \<in> set (children (store s ! c))" using mem d(1) by simp
      ultimately show ?thesis using Suc.prems(2,3) by (auto intro: desc_child)
    qed
  qed
  from run st kids low reach show ?case by blast
qed

lemma stopped_None:
  "scopes sc = None \<Longrightarrow>
   stopped sc = sc\<lparr>active := False, effects := [], cleanups := [], parent := None\<rparr>"
  by (cases sc) (simp add: stopped_def)

lemma stopped_Some:
  "scopes sc = Some ch \<Longrightarrow>
   stopped sc = sc\<lparr>active := False, effects := [], cleanups := [], scopes := Some [], parent := None\<rparr>"
  by (cases sc) (simp add: stopped_def)

lemma stop_prefix_facts:
  assumes "c < length (store s)"
  shows "store (stop_prefix s c) =
           (store s)[c := (store s ! c)\<lparr>active := False, effects := [], cleanups := []\<rparr>]"
    and "trace (stop_prefix s c) = trace s @ own_events (store s ! c) c"
    and "activeEffectScope (stop_prefix s c) = activeEffectScope s"
  using assms
  by (simp_all add: stop_prefix_def update_def)

lemma unlink_fromParent: "c < length (store s) \<Longrightarrow> unlink s c True = Some (None, s)"
  by (simp add: unlink_def lookup_def split: option.splits)

lemma update_trace: "update (s\<lparr>trace := t\<rparr>) c f = (update s c f)\<lparr>trace := t\<rparr>"
  by (simp add: update_def)

lemma effectsLoop_quiet:
  "c < length (store s) \<Longrightarrow> \<forall>e \<in> set (effects (store s ! c)). quiet (effect_stop cb e) \<Longrightarrow>
   i + k = length (effects (store s ! c)) \<Longrightarrow>
   effectsLoop cb s c i k =
     Some (None, s\<lparr>trace := trace s @ map (EffectStop c) (drop i (effects (store s ! c)))\<rparr>)"
proof (induction k arbitrary: s i)
  case 0
  then show ?case by simp
next
  case (Suc k)
  let ?es = "effects (store s ! c)"
  let ?t = "s\<lparr>trace := trace s @ [EffectStop c (?es ! i)]\<rparr>"
  from Suc.prems(3) have i: "i < length ?es" by simp
  then have "quiet (effect_stop cb (?es ! i))" using Suc.prems(2) by simp
  then have call: "effect_stop cb (?es ! i) ?t = Some (None, ?t)" by (simp add: quiet_def)
  have "effectsLoop cb ?t c (Suc i) k =
     Some (None, ?t\<lparr>trace := trace ?t @ map (EffectStop c) (drop (Suc i) (effects (store ?t ! c)))\<rparr>)"
    using Suc.prems by (intro Suc.IH) simp_all
  moreover have "drop i ?es = ?es ! i # drop (Suc i) ?es" using i by (simp add: Cons_nth_drop_Suc)
  ultimately show ?case using Suc.prems(1) i call by (simp add: lookup_def)
qed

lemma cleanupsLoop_quiet:
  "c < length (store s) \<Longrightarrow> \<forall>e \<in> set (cleanups (store s ! c)). quiet (cleanup cb e) \<Longrightarrow>
   i + k = length (cleanups (store s ! c)) \<Longrightarrow>
   cleanupsLoop cb s c i k =
     Some (None, s\<lparr>trace := trace s @ map (CleanupRun c) (drop i (cleanups (store s ! c)))\<rparr>)"
proof (induction k arbitrary: s i)
  case 0
  then show ?case by simp
next
  case (Suc k)
  let ?es = "cleanups (store s ! c)"
  let ?t = "s\<lparr>trace := trace s @ [CleanupRun c (?es ! i)]\<rparr>"
  from Suc.prems(3) have i: "i < length ?es" by simp
  then have "quiet (cleanup cb (?es ! i))" using Suc.prems(2) by simp
  then have call: "cleanup cb (?es ! i) ?t = Some (None, ?t)" by (simp add: quiet_def)
  have "cleanupsLoop cb ?t c (Suc i) k =
     Some (None, ?t\<lparr>trace := trace ?t @ map (CleanupRun c) (drop (Suc i) (cleanups (store ?t ! c)))\<rparr>)"
    using Suc.prems by (intro Suc.IH) simp_all
  moreover have "drop i ?es = ?es ! i # drop (Suc i) ?es" using i by (simp add: Cons_nth_drop_Suc)
  ultimately show ?case using Suc.prems(1) i call by (simp add: lookup_def)
qed

lemma stopEffects_quiet:
  assumes "c < length (store s)" "\<forall>e \<in> set (effects (store s ! c)). quiet (effect_stop cb e)"
  shows "stopEffects cb s c =
     Some (None, (update s c (\<lambda>x. x\<lparr>effects := []\<rparr>))
                   \<lparr>trace := trace s @ map (EffectStop c) (effects (store s ! c))\<rparr>)"
  using assms effectsLoop_quiet[OF assms, of 0 "length (effects (store s ! c))"]
  by (simp add: stopEffects_def lookup_def update_trace)

lemma runCleanups_quiet:
  assumes "c < length (store s)" "\<forall>e \<in> set (cleanups (store s ! c)). quiet (cleanup cb e)"
  shows "runCleanups cb s c =
     Some (None, (update s c (\<lambda>x. x\<lparr>cleanups := []\<rparr>))
                   \<lparr>trace := trace s @ map (CleanupRun c) (cleanups (store s ! c))\<rparr>)"
  using assms cleanupsLoop_quiet[OF assms, of 0 "length (cleanups (store s ! c))"]
  by (simp add: runCleanups_def lookup_def update_trace)

lemma stop_first_loops:
  assumes c: "c < length (store s)" and q: "quiet_scope cb (store s ! c)"
  shows "andThen (stopEffects cb (update s c (\<lambda>x. x\<lparr>active := False\<rparr>)) c)
           (\<lambda>s2. andThen (runCleanups cb s2 c) f) = f (stop_prefix s c)"
proof -
  let ?s1 = "update s c (\<lambda>x. x\<lparr>active := False\<rparr>)"
  let ?s2 = "(update ?s1 c (\<lambda>x. x\<lparr>effects := []\<rparr>))
                   \<lparr>trace := trace ?s1 @ map (EffectStop c) (effects (store ?s1 ! c))\<rparr>"
  have c1: "c < length (store ?s1)" using c by (simp add: update_def)
  have q1: "\<forall>e \<in> set (effects (store ?s1 ! c)). quiet (effect_stop cb e)"
    using q c by (simp add: quiet_scope_def update_def)
  have e: "stopEffects cb ?s1 c = Some (None, ?s2)" using c1 q1 by (rule stopEffects_quiet)
  have c2: "c < length (store ?s2)" using c by (simp add: update_def)
  have q2: "\<forall>e \<in> set (cleanups (store ?s2 ! c)). quiet (cleanup cb e)"
    using q c by (simp add: quiet_scope_def update_def)
  have r: "runCleanups cb ?s2 c =
     Some (None, (update ?s2 c (\<lambda>x. x\<lparr>cleanups := []\<rparr>))
                   \<lparr>trace := trace ?s2 @ map (CleanupRun c) (cleanups (store ?s2 ! c))\<rparr>)"
    using c2 q2 by (rule runCleanups_quiet)
  have eq: "(update ?s2 c (\<lambda>x. x\<lparr>cleanups := []\<rparr>))
                   \<lparr>trace := trace ?s2 @ map (CleanupRun c) (cleanups (store ?s2 ! c))\<rparr> =
            stop_prefix s c"
    using c by (simp add: stop_prefix_def update_def own_events_def)
  show ?thesis by (simp only: e andThen_simps r eq)
qed

lemma stopN_Suc_active:
  assumes "c < length (store s)" "active (store s ! c)" "quiet_scope cb (store s ! c)"
  shows "stopN cb (Suc n) s c fp =
     andThen (stopScopes (\<lambda>s' d. stopN cb n s' d True) (stop_prefix s c) c)
       (\<lambda>s5. andThen (unlink s5 c fp)
       (\<lambda>s6. Some (None, update s6 c (\<lambda>x. x\<lparr>parent := None\<rparr>))))"
  using assms(1,2) by (simp add: lookup_def stop_first_loops[OF assms(1,3)])

lemma stopN_inactive:
  assumes "c < length (store s)" "\<not> active (store s ! c)"
  shows "stopN cb (Suc n) s c fp = Some (None, s)"
  using assms by (simp add: lookup_def)

lemma ordered_not_self: "ordered s \<Longrightarrow> c < length (store s) \<Longrightarrow> Some c \<notin> set (children (store s ! c))"
  by (auto simp: ordered_def)

lemma children_prefix:
  assumes "c < length (store s)" "x < length (store s)"
  shows "children (store (stop_prefix s c) ! x) = children (store s ! x)"
  using assms by (cases "x = c") (simp_all add: stop_prefix_facts(1) children_def)

lemma ordered_prefix:
  assumes "ordered s" "c < length (store s)"
  shows "ordered (stop_prefix s c)"
  unfolding ordered_def
proof (intro allI impI ballI)
  fix x e
  assume x: "x < length (store (stop_prefix s c))"
    and e: "e \<in> set (children (store (stop_prefix s c) ! x))"
  from x have x': "x < length (store s)" by (simp add: stop_prefix_facts(1)[OF assms(2)])
  from e have "e \<in> set (children (store s ! x))"
    by (simp add: children_prefix[OF assms(2) x'])
  with assms(1) x' show "\<exists>d. e = Some d \<and> x < d \<and> d < length (store (stop_prefix s c))"
    by (auto simp: ordered_def stop_prefix_facts(1)[OF assms(2)])
qed

lemma desc_prefix:
  assumes "c < length (store s)" "x \<in> descendants (stop_prefix s c) r"
  shows "x \<in> descendants s r"
proof (rule desc_mono[of "stop_prefix s c" s])
  show "length (store (stop_prefix s c)) = length (store s)"
    by (simp add: stop_prefix_facts(1)[OF assms(1)])
  show "\<forall>x<length (store s).
       children (store (stop_prefix s c) ! x) = children (store s ! x) \<or>
       children (store (stop_prefix s c) ! x) = []"
    using children_prefix[OF assms(1)] by simp
  show "x \<in> descendants (stop_prefix s c) r" by (rule assms(2))
qed

lemma quiet_prefix:
  assumes c: "c < length (store s)" and q: "quiet_from cb s c"
  shows "quiet_from cb (stop_prefix s c) c"
  unfolding quiet_from_def
proof (intro ballI impI)
  fix d assume d: "d \<in> descendants (stop_prefix s c) c" "d < length (store (stop_prefix s c))"
  from desc_prefix[OF c d(1)] have ds: "d \<in> descendants s c" .
  from d(2) have dl: "d < length (store s)" by (simp add: stop_prefix_facts(1)[OF c])
  from q ds dl have qs: "quiet_scope cb (store s ! d)" by (simp add: quiet_from_def)
  show "quiet_scope cb (store (stop_prefix s c) ! d)"
    using qs dl by (cases "d = c") (simp_all add: stop_prefix_facts(1)[OF c] quiet_scope_def)
qed

lemma update_same: "f (store s ! a) = store s ! a \<Longrightarrow> update s a f = s"
  by (simp add: update_def)

lemma scopes_None_same: "scopes r = None \<Longrightarrow> r\<lparr>scopes := None\<rparr> = r"
  by (cases r) simp

lemma stop_body:
  assumes IH: "\<And>t d. ordered t \<Longrightarrow> length (store t) = length (store s) \<Longrightarrow>
          d < length (store s) \<Longrightarrow> a < d \<Longrightarrow> quiet_from cb t d \<Longrightarrow>
          \<exists>s'. stopN cb n t d True = Some (None, s') \<and> stops_from t d s'"
    and ord: "ordered s" and a: "a < length (store s)" and act: "active (store s ! a)"
    and q: "quiet_from cb s a"
  shows "\<exists>s5 rest.
     stopN cb (Suc n) s a fp =
       andThen (unlink s5 a fp) (\<lambda>s6. Some (None, update s6 a (\<lambda>x. x\<lparr>parent := None\<rparr>))) \<and>
     stops_from s a (update s5 a (\<lambda>x. x\<lparr>parent := None\<rparr>)) \<and>
     length (store s5) = length (store s) \<and>
     store s5 ! a = (stopped (store s ! a))\<lparr>parent := parent (store s ! a)\<rparr> \<and>
     (\<forall>x < a. store s5 ! x = store s ! x) \<and>
     trace s5 = trace s @ own_events (store s ! a) a @ rest \<and>
     (\<forall>e \<in> set rest. scope_of e \<noteq> a)"
proof -
  let ?s3 = "stop_prefix s a"
  note pf = stop_prefix_facts[OF a]
  have len3: "length (store ?s3) = length (store s)" by (simp add: pf(1))
  have o3: "ordered ?s3" using ord a by (rule ordered_prefix)
  have m: "\<not> active ((store s ! a)\<lparr>active := False, effects := [], cleanups := []\<rparr>)" by simp
  have notc: "Some a \<notin> set (children (store s ! a))" using ord a by (rule ordered_not_self)
  have a3: "\<not> active (store ?s3 ! a)" using a by (simp add: pf(1))
  have q3: "quiet_from cb ?s3 a" using a q by (rule quiet_prefix)
  have qa: "quiet_scope cb (store s ! a)" using q a by (simp add: quiet_from_def descendants.base)
  have "\<exists>s4. stopScopes (\<lambda>s' d. stopN cb n s' d True) ?s3 a
            = Some (None, update s4 a (\<lambda>x. x\<lparr>scopes := (case scopes (store s ! a) of None \<Rightarrow> None | Some _ \<Rightarrow> Some [])\<rparr>)) \<and>
         stops ?s3 s4 \<and>
         (\<forall>d. Some d \<in> set (children (store s ! a)) \<longrightarrow> d < length (store s) \<longrightarrow>
               \<not> active (store s4 ! d)) \<and>
         (\<forall>x \<le> a. store s4 ! x = store ?s3 ! x) \<and>
         (\<forall>x < length (store s). active (store ?s3 ! x) \<longrightarrow> \<not> active (store s4 ! x) \<longrightarrow>
            x \<in> descendants ?s3 a)"
  proof (cases "scopes (store s ! a)")
    case None
    have "scopes (store ?s3 ! a) = None" using None a by (simp add: pf(1))
    then have "update ?s3 a (\<lambda>x. x\<lparr>scopes := None\<rparr>) = ?s3"
      by (intro update_same scopes_None_same)
    with None \<open>scopes (store ?s3 ! a) = None\<close> a len3 show ?thesis
      by (intro exI[of _ ?s3]) (simp add: stops_refl children_def stopScopes_def lookup_def)
  next
    case (Some ch)
    have sc3: "scopes (store ?s3 ! a) = Some ch" using Some a by (simp add: pf(1))
    from stopChildren_stops[where f = "\<lambda>s' d. stopN cb n s' d True" and L = "length (store s)"
        and c = a and s = ?s3 and ch = ch and i = 0 and k = "length ch" and cb = cb,
        OF IH o3 len3 a sc3 _ q3]
    obtain s4 where s4: "stopChildren (\<lambda>s' d. stopN cb n s' d True) ?s3 a 0 (length ch) = Some (None, s4)"
      "stops ?s3 s4"
      "\<forall>j. j < length ch \<longrightarrow> (\<exists>d. ch ! j = Some d \<and> \<not> active (store s4 ! d))"
      "\<forall>x \<le> a. store s4 ! x = store ?s3 ! x"
      "\<forall>x < length (store s). active (store ?s3 ! x) \<longrightarrow> \<not> active (store s4 ! x) \<longrightarrow>
            x \<in> descendants ?s3 a"
      by auto
    have kids: "\<forall>d. Some d \<in> set (children (store s ! a)) \<longrightarrow> d < length (store s) \<longrightarrow>
               \<not> active (store s4 ! d)"
    proof (intro allI impI)
      fix d assume "Some d \<in> set (children (store s ! a))"
      then obtain j where "j < length ch" "ch ! j = Some d"
        using Some by (auto simp: children_def in_set_conv_nth)
      with s4(3) show "\<not> active (store s4 ! d)" by auto
    qed
    have l4: "length (store s4) = length (store s)" using s4(2) len3 by (simp add: stops_length)
    have sc4: "scopes (store s4 ! a) = Some ch" using s4(4) sc3 by simp
    have "stopScopes (\<lambda>s' d. stopN cb n s' d True) ?s3 a =
            Some (None, update s4 a (\<lambda>x. x\<lparr>scopes := Some []\<rparr>))"
      using a len3 sc3 s4(1) l4 sc4 by (simp add: stopScopes_def lookup_def)
    with Some s4(2,4,5) kids show ?thesis by (intro exI[of _ s4]) simp
  qed
  then obtain s4 where s4:
    "stopScopes (\<lambda>s' d. stopN cb n s' d True) ?s3 a
            = Some (None, update s4 a (\<lambda>x. x\<lparr>scopes := (case scopes (store s ! a) of None \<Rightarrow> None | Some _ \<Rightarrow> Some [])\<rparr>))"
    "stops ?s3 s4"
    "\<forall>d. Some d \<in> set (children (store s ! a)) \<longrightarrow> d < length (store s) \<longrightarrow>
               \<not> active (store s4 ! d)"
    "\<forall>x \<le> a. store s4 ! x = store ?s3 ! x"
    "\<forall>x < length (store s). active (store ?s3 ! x) \<longrightarrow> \<not> active (store s4 ! x) \<longrightarrow>
            x \<in> descendants ?s3 a"
    by blast
  let ?s5 = "update s4 a (\<lambda>x. x\<lparr>scopes := (case scopes (store s ! a) of None \<Rightarrow> None | Some _ \<Rightarrow> Some [])\<rparr>)"
  let ?s' = "update ?s5 a (\<lambda>x. x\<lparr>parent := None\<rparr>)"
  have len4: "length (store s4) = length (store s)" using s4(2) len3 by (simp add: stops_length)
  have run: "stopN cb (Suc n) s a fp =
       andThen (unlink ?s5 a fp) (\<lambda>s6. Some (None, update s6 a (\<lambda>x. x\<lparr>parent := None\<rparr>)))"
    unfolding stopN_Suc_active[OF a act qa] s4(1) by simp
  have at4: "store s4 ! a = (store s ! a)\<lparr>active := False, effects := [], cleanups := []\<rparr>"
    using s4(4) a by (simp add: pf(1))
  have at5: "store ?s5 ! a = (stopped (store s ! a))\<lparr>parent := parent (store s ! a)\<rparr>"
    using a len4 at4 by (cases "store s ! a") (simp add: update_def stopped_def)
  have st: "store ?s' = (store s4)[a := stopped (store s ! a)]"
    using a len4 at4 by (cases "store s ! a") (simp add: update_def stopped_def)
  have stp: "stops s ?s'"
    by (rule stops_finish[OF a act pf(1) m pf(2) pf(3) s4(2) s4(3) notc st])
      (simp_all add: update_def)
  have na: "\<not> active (store ?s' ! a)" using st a len4 by simp
  have low: "\<forall>x < a. store ?s' ! x = store s ! x" using st s4(4) by (simp add: pf(1))
  have low5: "\<forall>x < a. store ?s5 ! x = store s ! x" using s4(4) by (simp add: pf(1) update_def)
  have reach: "\<forall>x < length (store s). active (store s ! x) \<longrightarrow> \<not> active (store ?s' ! x) \<longrightarrow>
        x \<in> descendants s a"
  proof (intro allI impI)
    fix x assume x: "x < length (store s)" and ax: "active (store s ! x)"
      and nx: "\<not> active (store ?s' ! x)"
    show "x \<in> descendants s a"
    proof (cases "x = a")
      case True
      then show ?thesis by (simp add: descendants.base)
    next
      case False
      with ax nx st have "active (store ?s3 ! x)" "\<not> active (store s4 ! x)"
        by (simp_all add: pf(1))
      with s4(5) x have "x \<in> descendants ?s3 a" by simp
      with a show ?thesis by (rule desc_prefix)
    qed
  qed
  from s4(2) obtain rest where rest: "trace s4 = trace ?s3 @ rest"
    and fr: "\<And>d. filter (\<lambda>e. scope_of e = d) rest =
           (if d < length (store ?s3) \<and> active (store ?s3 ! d) \<and> \<not> active (store s4 ! d)
            then own_events (store ?s3 ! d) d else [])"
    unfolding stops_def by blast
  have tr5: "trace ?s5 = trace s @ own_events (store s ! a) a @ rest"
    using rest by (simp add: update_def pf(2))
  have "filter (\<lambda>e. scope_of e = a) rest = []" using fr[of a] a3 by simp
  then have nota: "\<forall>e \<in> set rest. scope_of e \<noteq> a" by (simp add: filter_empty_conv)
  have len5: "length (store ?s5) = length (store s)" using len4 by (simp add: update_def)
  from run stp na low reach len5 at5 low5 tr5 nota show ?thesis
    unfolding stops_from_def by blast
qed

lemma stopN_stops:
  "ordered s \<Longrightarrow> c < length (store s) \<Longrightarrow> length (store s) \<le> n + c \<Longrightarrow> quiet_from cb s c \<Longrightarrow>
   \<exists>s'. stopN cb n s c True = Some (None, s') \<and> stops_from s c s'"
proof (induction n arbitrary: s c)
  case 0
  then show ?case by simp
next
  case (Suc n)
  show ?case
  proof (cases "active (store s ! c)")
    case False
    with Suc.prems(2) have "stopN cb (Suc n) s c True = Some (None, s)" by (rule stopN_inactive)
    with False show ?thesis using stops_refl[of s] by (simp add: stops_from_def)
  next
    case True
    have IH: "\<And>t d. ordered t \<Longrightarrow> length (store t) = length (store s) \<Longrightarrow>
          d < length (store s) \<Longrightarrow> c < d \<Longrightarrow> quiet_from cb t d \<Longrightarrow>
          \<exists>s'. stopN cb n t d True = Some (None, s') \<and> stops_from t d s'"
      using Suc.IH Suc.prems(3) by simp
    from stop_body[where fp = True, OF IH Suc.prems(1,2) True Suc.prems(4)]
    obtain s5 where s5: "stopN cb (Suc n) s c True =
       andThen (unlink s5 c True) (\<lambda>s6. Some (None, update s6 c (\<lambda>x. x\<lparr>parent := None\<rparr>)))"
      "stops_from s c (update s5 c (\<lambda>x. x\<lparr>parent := None\<rparr>))"
      "length (store s5) = length (store s)"
      by blast
    have "unlink s5 c True = Some (None, s5)" using s5(3) Suc.prems(2) by (simp add: unlink_fromParent)
    with s5(1,2) show ?thesis by simp
  qed
qed


lemma wf_ordered: "scopes_wf s \<Longrightarrow> ordered s"
  unfolding scopes_wf_def ordered_def
  by (metis in_set_conv_nth)

lemma desc_lt:
  assumes "ordered s" "a < length (store s)" "d \<in> descendants s a"
  shows "d < length (store s)"
  using assms(3)
proof (induction rule: descendants.induct)
  case base
  show ?case by (rule assms(2))
next
  case (step d c)
  with assms(1) show ?case unfolding ordered_def by blast
qed

lemma wf_children_active:
  assumes wf: "scopes_wf s" and x: "x < length (store s)"
    and c: "Some c \<in> set (children (store s ! x))"
  shows "active (store s ! c)"
proof -
  from c obtain j where j: "j < length (children (store s ! x))" "children (store s ! x) ! j = Some c"
    by (auto simp: in_set_conv_nth)
  with wf x have cl: "c < length (store s)" and par: "parent (store s ! c) = Some x"
    unfolding scopes_wf_def by (metis option.inject)+
  show ?thesis
  proof (rule ccontr)
    assume "\<not> active (store s ! c)"
    with wf cl have "parent (store s ! c) = None" unfolding scopes_wf_def by blast
    with par show False by simp
  qed
qed

lemma cascade:
  assumes st: "stops s t" and na: "\<not> active (store t ! a)" and a: "a < length (store s)"
    and acta: "active (store s ! a)"
    and ord: "ordered s"
    and w2: "\<forall>x < length (store s). \<forall>c. Some c \<in> set (children (store s ! x)) \<longrightarrow>
               active (store s ! c)"
    and d: "d \<in> descendants s a"
  shows "active (store s ! d) \<and> \<not> active (store t ! d)"
  using d
proof (induction rule: descendants.induct)
  case base
  show ?case using acta na by simp
next
  case (step d c)
  from ord step.hyps(2,3) have c: "c < length (store s)" unfolding ordered_def by blast
  from step.IH have d: "active (store s ! d)" "\<not> active (store t ! d)" by simp_all
  from w2 step.hyps(2,3) have "active (store s ! c)" by blast
  moreover from st step.hyps(2,3) d c have "\<not> active (store t ! c)"
    unfolding stops_def by blast
  ultimately show ?case by simp
qed

lemma unlink_none:
  assumes "a < length (store t)" "parent (store t ! a) = None \<or> detached (store t ! a)"
  shows "unlink t a False = Some (None, t)"
  using assms by (auto simp: unlink_def lookup_def split: option.splits)

lemma unlink_result:
  assumes a: "a < length (store t)" and p: "p < length (store t)"
    and par: "parent (store t ! a) = Some p" and det: "\<not> detached (store t ! a)"
    and idx: "index (store t ! a) = Some i"
    and ps: "scopes (store t ! p) = Some ps" and i: "i < length ps" and at: "ps ! i = Some a"
    and l: "last ps = Some l" "l < length (store t)" "l \<noteq> p" and ap: "a \<noteq> p"
    and il: "l \<noteq> a \<Longrightarrow> i < length ps - 1"
  shows "\<exists>t'. unlink t a False = Some (None, t') \<and> length (store t') = length (store t) \<and>
           trace t' = trace t \<and> activeEffectScope t' = activeEffectScope t \<and>
           store t' ! p = (store t ! p)\<lparr>scopes := Some (butlast (ps[i := Some l]))\<rparr> \<and>
           (l \<noteq> a \<longrightarrow> store t' ! l = (store t ! l)\<lparr>index := Some i\<rparr>) \<and>
           (\<forall>x. x \<noteq> p \<and> (x \<noteq> l \<or> l = a) \<longrightarrow> store t' ! x = store t ! x)"
proof -
  have ne: "ps \<noteq> []" using i by auto
  show ?thesis
  proof (cases "l = a")
    case True
    have "ps[i := Some l] = ps" using at True i by (simp add: list_update_same_conv)
    then show ?thesis
      using a p par det idx ps ne l True ap
      by (simp add: unlink_def lookup_def update_def Let_def)
  next
    case False
    from il[OF False] have i': "i < length (butlast ps)" by simp
    have "assignAt (butlast ps) i l = butlast (ps[i := Some l])"
      using i' by (simp add: assignAt_def butlast_list_update)
    then show ?thesis
      using a p par det idx ps ne l False ap
      by (simp add: unlink_def lookup_def update_def Let_def)
  qed
qed


lemma wf_unique_index:
  assumes wf: "scopes_wf s" and p: "p < length (store s)"
    and j: "j < length (children (store s ! p))" "children (store s ! p) ! j = Some a"
    and i: "index (store s ! a) = Some i"
  shows "j = i"
proof -
  from wf p j(1) obtain c where "children (store s ! p) ! j = Some c" "index (store s ! c) = Some j"
    unfolding scopes_wf_def by blast
  with j(2) i show ?thesis by simp
qed










lemma ex_siblings_wf: "scopes_wf ex_siblings"
  unfolding scopes_wf_def ex_siblings_def
  by (simp add: children_def ex_scope_def less_Suc_eq nth_Cons' numeral_eq_Suc all_conj_distrib)

lemma ex_throwing_wf: "scopes_wf ex_throwing"
  unfolding scopes_wf_def ex_throwing_def
  by (simp add: children_def ex_scope_def less_Suc_eq nth_Cons' numeral_eq_Suc all_conj_distrib)


text \<open>
  The callbacks of the two trees are not quiet. Nor is an effect whose \<open>stop\<close> takes
  the effect out of the \<open>effects\<close> array of its scope, as the spec (section 4.2) has
  \<open>stop\<close> remove the effect from its owning scope: on a scope with two such effects the
  first loop finds no second element, \<open>stop()\<close> throws a \<open>TypeError\<close>, and the second
  effect is not stopped.
\<close>

lemma ex_callbacks_not_quiet:
  "\<not> quiet_from ex_callbacks ex_siblings 1" "\<not> quiet_from ex_callbacks ex_throwing 0"
proof -
  have n8: "\<not> quiet (cleanup ex_callbacks 8)"
    by (simp add: quiet_def ex_callbacks_def)
  have d0: "0 \<in> descendants ex_throwing 0" by (rule descendants.base)
  have l0: "0 < length (store ex_throwing)" by (simp add: ex_throwing_def)
  have c0: "cleanups (store ex_throwing ! 0) = [8, 9]" by (simp add: ex_throwing_def ex_scope_def)
  show "\<not> quiet_from ex_callbacks ex_throwing 0"
  proof
    assume "quiet_from ex_callbacks ex_throwing 0"
    with d0 l0 have "quiet_scope ex_callbacks (store ex_throwing ! 0)"
      unfolding quiet_from_def by blast
    then have "quiet (cleanup ex_callbacks 8)" unfolding quiet_scope_def c0 by simp
    with n8 show False by simp
  qed
  have "cleanup ex_callbacks 7 ex_siblings \<noteq> Some (None, ex_siblings)"
    by code_simp
  then have n7: "\<not> quiet (cleanup ex_callbacks 7)" by (auto simp: quiet_def)
  have d2: "2 \<in> descendants ex_siblings 1"
  proof -
    have "1 \<in> descendants ex_siblings 1" by (rule descendants.base)
    moreover have "1 < length (store ex_siblings)" by (simp add: ex_siblings_def)
    moreover have "Some 2 \<in> set (children (store ex_siblings ! 1))"
      by (simp add: ex_siblings_def children_def)
    ultimately show ?thesis by (rule descendants.step)
  qed
  have l2: "2 < length (store ex_siblings)" by (simp add: ex_siblings_def)
  have c2: "cleanups (store ex_siblings ! 2) = [7]" by (simp add: ex_siblings_def ex_scope_def)
  show "\<not> quiet_from ex_callbacks ex_siblings 1"
  proof
    assume "quiet_from ex_callbacks ex_siblings 1"
    with d2 l2 have "quiet_scope ex_callbacks (store ex_siblings ! 2)"
      unfolding quiet_from_def by blast
    then have "quiet (cleanup ex_callbacks 7)" unfolding quiet_scope_def c2 by simp
    with n7 show False by simp
  qed
qed

lemma stop_effect_leaving_scope:
  "stop ex_leaving ex_two_effects 0 False = Some (Some TypeError, ex_two_effects_after)"
  "effects (store ex_two_effects_after ! 0) = [11]"
  "trace ex_two_effects_after = [EffectStop 0 10]"
  by code_simp+

text \<open>
  Claim C6. \<open>s.run(fn)\<close> on an active scope calls \<open>fn\<close> in the state where
  \<open>activeEffectScope\<close> is \<open>s\<close>; whether \<open>fn\<close> returns or throws, \<open>run\<close> returns or
  throws the same and the state is the one \<open>fn\<close> left, with \<open>activeEffectScope\<close> set
  back to what it was before the call. On an inactive scope \<open>run\<close> returns \<open>undefined\<close>
  and the state is untouched, whatever \<open>fn\<close> is.
\<close>

theorem run_restores_scope:
  assumes "lookup s this = Some sc"
  shows "(active sc \<longrightarrow>
           (\<exists>r s1. fn (s\<lparr>activeEffectScope := Some this\<rparr>) = (r, s1) \<and>
              run s this fn =
                Some (map_sum id Some r, s1\<lparr>activeEffectScope := activeEffectScope s\<rparr>))) \<and>
         (\<not> active sc \<longrightarrow> run s this fn = Some (Inr None, s))"
  using assms by (auto simp: run_def Let_def split: prod.splits)

theorem run_restores_scope_witness:
  "lookup ex_two_scopes 0 = Some ex_scope \<and> active ex_scope \<and>
   run ex_two_scopes 0 (\<lambda>s. (Inr (activeEffectScope s) :: string + addr option, s)) =
     Some (Inr (Some (Some 0)), ex_two_scopes) \<and>
   run ex_two_scopes 0
       (\<lambda>s. (Inl ''thrown'' :: string + addr option, s\<lparr>activeEffectScope := None\<rparr>)) =
     Some (Inl ''thrown'', ex_two_scopes) \<and>
   lookup ex_two_scopes 1 = Some (ex_scope\<lparr>active := False\<rparr>) \<and>
   run ex_two_scopes 1 (\<lambda>s. (Inr (activeEffectScope s) :: string + addr option, s)) =
     Some (Inr None, ex_two_scopes)"
proof -
  have l0: "lookup ex_two_scopes 0 = Some ex_scope"
    and l1: "lookup ex_two_scopes 1 = Some (ex_scope\<lparr>active := False\<rparr>)"
    by (simp_all add: lookup_def ex_two_scopes_def)
  have a: "active ex_scope" by (simp add: ex_scope_def)
  have s: "ex_two_scopes\<lparr>activeEffectScope := Some 1\<rparr> = ex_two_scopes"
    by (simp add: ex_two_scopes_def)
  show ?thesis
    using run_restores_scope[OF l0, of "\<lambda>s. (Inr (activeEffectScope s) :: string + addr option, s)"]
      run_restores_scope[OF l0,
        of "\<lambda>s. (Inl ''thrown'' :: string + addr option, s\<lparr>activeEffectScope := None\<rparr>)"]
      run_restores_scope[OF l1, of "\<lambda>s. (Inr (activeEffectScope s) :: string + addr option, s)"]
      l0 l1 a s
    by (simp add: ex_two_scopes_def)
qed

subsection \<open>The scope trees stay well-formed\<close>

text \<open>
  The state without scopes is well-formed, and the constructor and a \<open>stop()\<close> whose
  callbacks are quiet keep a state well-formed. Of the state kept here \<open>run\<close> assigns
  only \<open>activeEffectScope\<close>, which well-formedness does not look at.
\<close>

lemma scopes_wf_empty: "scopes_wf \<lparr>store = [], activeEffectScope = None, trace = []\<rparr>"
  by (simp add: scopes_wf_def)

lemma scopes_wf_activeEffectScope: "scopes_wf (s\<lparr>activeEffectScope := c\<rparr>) = scopes_wf s"
  by (simp add: scopes_wf_def)

lemma scopes_wf_intro:
  assumes "\<And>x j. x < length (store s) \<Longrightarrow> j < length (children (store s ! x)) \<Longrightarrow>
           \<exists>c. children (store s ! x) ! j = Some c \<and> x < c \<and> c < length (store s) \<and>
               parent (store s ! c) = Some x \<and> index (store s ! c) = Some j \<and>
               \<not> detached (store s ! c)"
    and "\<And>x. x < length (store s) \<Longrightarrow> \<not> active (store s ! x) \<Longrightarrow> parent (store s ! x) = None"
    and "\<And>x p. x < length (store s) \<Longrightarrow> parent (store s ! x) = Some p \<Longrightarrow>
           \<not> detached (store s ! x) \<Longrightarrow>
           p < x \<and> (\<exists>i. index (store s ! x) = Some i \<and> i < length (children (store s ! p)) \<and>
                children (store s ! p) ! i = Some x)"
  shows "scopes_wf s"
  unfolding scopes_wf_def using assms by blast

lemma wf_child:
  assumes "scopes_wf s" "x < length (store s)" "j < length (children (store s ! x))"
  obtains c where "children (store s ! x) ! j = Some c" "x < c" "c < length (store s)"
    "parent (store s ! c) = Some x" "index (store s ! c) = Some j" "\<not> detached (store s ! c)"
  using assms unfolding scopes_wf_def by blast

lemma wf_inactive_parent:
  "scopes_wf s \<Longrightarrow> x < length (store s) \<Longrightarrow> \<not> active (store s ! x) \<Longrightarrow> parent (store s ! x) = None"
  unfolding scopes_wf_def by blast

lemma wf_parent:
  assumes "scopes_wf s" "x < length (store s)" "parent (store s ! x) = Some p"
    "\<not> detached (store s ! x)"
  obtains i where "p < x" "index (store s ! x) = Some i" "i < length (children (store s ! p))"
    "children (store s ! p) ! i = Some x"
  using assms unfolding scopes_wf_def by blast

lemma scopes_wf_new:
  assumes wf: "scopes_wf s"
    and cur: "\<And>p. activeEffectScope s = Some p \<Longrightarrow> p < length (store s)"
  shows "scopes_wf (snd (EffectScope_new s isDetached))"
proof -
  let ?L = "length (store s)"
  let ?new = "\<lparr>active = True, on_count = 0, effects = [], cleanups = [], isPaused = False,
                   parent = activeEffectScope s, scopes = None, index = None,
                   detached = isDetached, prevScope = None\<rparr>"
  show ?thesis
  proof (cases "\<exists>p. activeEffectScope s = Some p \<and> \<not> isDetached")
    case False
    then have res: "snd (EffectScope_new s isDetached) = s\<lparr>store := store s @ [?new]\<rparr>"
      by (auto simp: EffectScope_new_def Let_def split: option.splits)
    have det: "parent ?new = None \<or> detached ?new" using False by (cases "activeEffectScope s") auto
    show ?thesis unfolding res
    proof (rule scopes_wf_intro)
      fix x j
      assume x: "x < length (store (s\<lparr>store := store s @ [?new]\<rparr>))"
        and j: "j < length (children (store (s\<lparr>store := store s @ [?new]\<rparr>) ! x))"
      have xl: "x < ?L" using x j by (cases "x = ?L") (auto simp: children_def nth_append)
      with j have j': "j < length (children (store s ! x))" by (simp add: nth_append)
      from wf_child[OF wf xl j'] obtain c where c: "children (store s ! x) ! j = Some c" "x < c"
        "c < ?L" "parent (store s ! c) = Some x" "index (store s ! c) = Some j"
        "\<not> detached (store s ! c)" by blast
      then show "\<exists>c. children (store (s\<lparr>store := store s @ [?new]\<rparr>) ! x) ! j = Some c \<and> x < c \<and>
            c < length (store (s\<lparr>store := store s @ [?new]\<rparr>)) \<and>
            parent (store (s\<lparr>store := store s @ [?new]\<rparr>) ! c) = Some x \<and>
            index (store (s\<lparr>store := store s @ [?new]\<rparr>) ! c) = Some j \<and>
            \<not> detached (store (s\<lparr>store := store s @ [?new]\<rparr>) ! c)"
        using xl by (auto simp: nth_append)
    next
      fix x
      assume "x < length (store (s\<lparr>store := store s @ [?new]\<rparr>))"
        and "\<not> active (store (s\<lparr>store := store s @ [?new]\<rparr>) ! x)"
      then show "parent (store (s\<lparr>store := store s @ [?new]\<rparr>) ! x) = None"
        using wf_inactive_parent[OF wf, of x] by (cases "x = ?L") (auto simp: nth_append)
    next
      fix x p
      assume x: "x < length (store (s\<lparr>store := store s @ [?new]\<rparr>))"
        and par: "parent (store (s\<lparr>store := store s @ [?new]\<rparr>) ! x) = Some p"
        and nd: "\<not> detached (store (s\<lparr>store := store s @ [?new]\<rparr>) ! x)"
      have xl: "x < ?L" using x par nd det by (cases "x = ?L") (auto simp: nth_append)
      with par nd have par': "parent (store s ! x) = Some p" "\<not> detached (store s ! x)"
        by (simp_all add: nth_append)
      from wf_parent[OF wf xl par'] obtain i where i: "p < x" "index (store s ! x) = Some i"
        "i < length (children (store s ! p))" "children (store s ! p) ! i = Some x" by blast
      then show "p < x \<and> (\<exists>i. index (store (s\<lparr>store := store s @ [?new]\<rparr>) ! x) = Some i \<and>
            i < length (children (store (s\<lparr>store := store s @ [?new]\<rparr>) ! p)) \<and>
            children (store (s\<lparr>store := store s @ [?new]\<rparr>) ! p) ! i = Some x)"
        using xl by (auto simp: nth_append)
    qed
  next
    case True
    then obtain p where p: "activeEffectScope s = Some p" and nd: "\<not> isDetached" by blast
    have pl: "p < ?L" using cur p by simp
    let ?ps = "children (store s ! p)"
    let ?st = "(store s @ [?new\<lparr>index := Some (length ?ps)\<rparr>])
                 [p := (store s ! p)\<lparr>scopes := Some (?ps @ [Some ?L])\<rparr>]"
    have res: "store (snd (EffectScope_new s isDetached)) = ?st"
      using p nd pl
      by (simp add: EffectScope_new_def Let_def update_def nth_append children_def
          list_update_append split: option.splits)
    have len: "length ?st = Suc ?L" by simp
    have at_p: "?st ! p = (store s ! p)\<lparr>scopes := Some (?ps @ [Some ?L])\<rparr>"
      using pl by (simp add: nth_append)
    have at_L: "?st ! ?L = ?new\<lparr>index := Some (length ?ps)\<rparr>"
      using pl by (simp add: nth_append)
    have other: "\<And>x. x < ?L \<Longrightarrow> x \<noteq> p \<Longrightarrow> ?st ! x = store s ! x"
      by (simp add: nth_append)
    have ch_p: "children (?st ! p) = ?ps @ [Some ?L]" using at_p by (simp add: children_def)
    have ch_L: "children (?st ! ?L) = []" using at_L by (simp add: children_def)
    have ch_other: "\<And>x. x < ?L \<Longrightarrow> x \<noteq> p \<Longrightarrow> children (?st ! x) = children (store s ! x)"
      using other by simp
    have fields: "\<And>x. x < ?L \<Longrightarrow> parent (?st ! x) = parent (store s ! x) \<and>
        index (?st ! x) = index (store s ! x) \<and> detached (?st ! x) = detached (store s ! x) \<and>
        active (?st ! x) = active (store s ! x)"
    proof -
      fix x assume "x < ?L"
      then show "parent (?st ! x) = parent (store s ! x) \<and>
        index (?st ! x) = index (store s ! x) \<and> detached (?st ! x) = detached (store s ! x) \<and>
        active (?st ! x) = active (store s ! x)"
        using at_p other[of x] by (cases "x = p") simp_all
    qed
    show ?thesis
    proof (rule scopes_wf_intro)
      fix x j
      assume x: "x < length (store (snd (EffectScope_new s isDetached)))"
        and j: "j < length (children (store (snd (EffectScope_new s isDetached)) ! x))"
      have xl: "x < ?L" using x j ch_L unfolding res by (cases "x = ?L") auto
      show "\<exists>c. children (store (snd (EffectScope_new s isDetached)) ! x) ! j = Some c \<and> x < c \<and>
            c < length (store (snd (EffectScope_new s isDetached))) \<and>
            parent (store (snd (EffectScope_new s isDetached)) ! c) = Some x \<and>
            index (store (snd (EffectScope_new s isDetached)) ! c) = Some j \<and>
            \<not> detached (store (snd (EffectScope_new s isDetached)) ! c)"
      proof (cases "x = p \<and> j = length ?ps")
        case True
        then show ?thesis unfolding res using ch_p at_L pl p nd by (simp add: nth_append)
      next
        case False
        have j': "j < length (children (store s ! x))"
          using j False xl ch_p ch_other[of x] unfolding res by (cases "x = p") auto
        from wf_child[OF wf xl j'] obtain c where c: "children (store s ! x) ! j = Some c" "x < c"
          "c < ?L" "parent (store s ! c) = Some x" "index (store s ! c) = Some j"
          "\<not> detached (store s ! c)" by blast
        have "children (?st ! x) ! j = Some c"
          using c(1) j' xl ch_p ch_other[of x] by (cases "x = p") (auto simp: nth_append)
        with c fields[of c] show ?thesis unfolding res by simp
      qed
    next
      fix x
      assume x: "x < length (store (snd (EffectScope_new s isDetached)))"
        and na: "\<not> active (store (snd (EffectScope_new s isDetached)) ! x)"
      have xl: "x < ?L" using x na at_L unfolding res by (cases "x = ?L") auto
      with na fields[of x] wf_inactive_parent[OF wf, of x]
      show "parent (store (snd (EffectScope_new s isDetached)) ! x) = None"
        unfolding res by simp
    next
      fix x q
      assume x: "x < length (store (snd (EffectScope_new s isDetached)))"
        and par: "parent (store (snd (EffectScope_new s isDetached)) ! x) = Some q"
        and ndx: "\<not> detached (store (snd (EffectScope_new s isDetached)) ! x)"
      show "q < x \<and> (\<exists>i. index (store (snd (EffectScope_new s isDetached)) ! x) = Some i \<and>
            i < length (children (store (snd (EffectScope_new s isDetached)) ! q)) \<and>
            children (store (snd (EffectScope_new s isDetached)) ! q) ! i = Some x)"
      proof (cases "x = ?L")
        case True
        with par have "q = p" unfolding res using at_L p by simp
        with True show ?thesis unfolding res using at_L ch_p pl by (simp add: nth_append)
      next
        case False
        with x have xl: "x < ?L" unfolding res by simp
        with par ndx fields[of x] have par': "parent (store s ! x) = Some q" "\<not> detached (store s ! x)"
          unfolding res by simp_all
        from wf_parent[OF wf xl par'] obtain i where i: "q < x" "index (store s ! x) = Some i"
          "i < length (children (store s ! q))" "children (store s ! q) ! i = Some x" by blast
        have ql: "q < ?L" using i(1) xl by simp
        have "i < length (children (?st ! q)) \<and> children (?st ! q) ! i = Some x"
          using i(3,4) ql ch_p ch_other[of q] by (cases "q = p") (auto simp: nth_append)
        with i(1,2) fields[of x] xl show ?thesis unfolding res by simp
      qed
    qed
  qed
qed


lemma desc_step_cases:
  assumes "d \<in> descendants s a"
  shows "d = a \<or> (\<exists>y \<in> descendants s a. y < length (store s) \<and> Some d \<in> set (children (store s ! y)))"
  using assms by (cases rule: descendants.cases) auto

lemma wf_child_parent:
  assumes wf: "scopes_wf s" and y: "y < length (store s)"
    and c: "Some c \<in> set (children (store s ! y))"
  shows "parent (store s ! c) = Some y \<and> \<not> detached (store s ! c) \<and> y < c \<and> c < length (store s)"
proof -
  from c obtain j where j: "j < length (children (store s ! y))" "children (store s ! y) ! j = Some c"
    by (auto simp: in_set_conv_nth)
  from wf_child[OF wf y j(1)] obtain c' where c': "children (store s ! y) ! j = Some c'" "y < c'"
    "c' < length (store s)" "parent (store s ! c') = Some y" "\<not> detached (store s ! c')"
    by blast
  from c'(1) j(2) have "c' = c" by simp
  with c' show ?thesis by simp
qed

lemma desc_parent:
  assumes wf: "scopes_wf s" and d: "d \<in> descendants s a" "d \<noteq> a"
  shows "\<exists>y \<in> descendants s a. parent (store s ! d) = Some y"
proof -
  from desc_step_cases[OF d(1)] d(2) obtain y where y: "y \<in> descendants s a"
    "y < length (store s)" "Some d \<in> set (children (store s ! y))" by blast
  from wf_child_parent[OF wf y(2,3)] y(1) show ?thesis by blast
qed

lemma stop_unlink_nodes:
  assumes wf: "scopes_wf s" and a: "a < length (store s)"
    and len: "length (store s5) = length (store s)"
    and at5: "store s5 ! a = (stopped (store s ! a))\<lparr>parent := parent (store s ! a)\<rparr>"
    and low5: "\<forall>x < a. store s5 ! x = store s ! x"
  shows "\<exists>t'. unlink s5 a False = Some (None, t') \<and> length (store t') = length (store s) \<and>
           trace t' = trace s5 \<and> activeEffectScope t' = activeEffectScope s5 \<and>
           ((parent (store s ! a) = None \<or> detached (store s ! a)) \<and> t' = s5 \<or>
            (\<exists>p ps i l. parent (store s ! a) = Some p \<and> \<not> detached (store s ! a) \<and> p < a \<and>
                scopes (store s ! p) = Some ps \<and> ps = children (store s ! p) \<and>
                index (store s ! a) = Some i \<and> i < length ps \<and> ps ! i = Some a \<and>
                last ps = Some l \<and> p < l \<and> l < length (store s) \<and>
                (l \<noteq> a \<longrightarrow> i < length ps - 1) \<and>
                (\<forall>j < length ps. ps ! j = Some a \<longrightarrow> j = i) \<and>
                store t' ! p = (store s ! p)\<lparr>scopes := Some (butlast (ps[i := Some l]))\<rparr> \<and>
                (l \<noteq> a \<longrightarrow> store t' ! l = (store s5 ! l)\<lparr>index := Some i\<rparr>) \<and>
                (\<forall>x. x \<noteq> p \<and> (x \<noteq> l \<or> l = a) \<longrightarrow> store t' ! x = store s5 ! x)))"
proof (cases "parent (store s ! a) = None \<or> detached (store s ! a)")
  case True
  have "parent (store s5 ! a) = None \<or> detached (store s5 ! a)"
    using True at5 by (auto simp: stopped_def)
  then have "unlink s5 a False = Some (None, s5)" using a len by (intro unlink_none) simp_all
  with True len show ?thesis by simp
next
  case False
  then obtain p where par: "parent (store s ! a) = Some p" and det: "\<not> detached (store s ! a)"
    by auto
  from wf_parent[OF wf a par det] obtain i where pa: "p < a" and idx: "index (store s ! a) = Some i"
    and i: "i < length (children (store s ! p))" and at: "children (store s ! p) ! i = Some a"
    by blast
  let ?ps = "children (store s ! p)"
  have p: "p < length (store s)" using pa a by simp
  have ps: "scopes (store s ! p) = Some ?ps"
    using i by (cases "scopes (store s ! p)") (simp_all add: children_def)
  have ne: "?ps \<noteq> []" using i by auto
  then have lastj: "length ?ps - 1 < length ?ps" by simp
  from wf_child[OF wf p lastj] obtain l where l: "?ps ! (length ?ps - 1) = Some l" "p < l"
    "l < length (store s)" by blast
  have last: "last ?ps = Some l" using l(1) ne by (simp add: last_conv_nth)
  have uniq: "\<forall>j < length ?ps. ?ps ! j = Some a \<longrightarrow> j = i"
    using wf_unique_index[OF wf p _ _ idx] by blast
  have il: "l \<noteq> a \<longrightarrow> i < length ?ps - 1"
  proof
    assume "l \<noteq> a"
    with l(1) at have "i \<noteq> length ?ps - 1" by auto
    with i show "i < length ?ps - 1" by simp
  qed
  have p5: "store s5 ! p = store s ! p" using low5 pa by simp
  have par5: "parent (store s5 ! a) = Some p" "\<not> detached (store s5 ! a)"
    "index (store s5 ! a) = Some i"
    using at5 par det idx by (simp_all add: stopped_def)
  have ps5: "scopes (store s5 ! p) = Some ?ps" using ps p5 by simp
  have a5: "a < length (store s5)" and p5l: "p < length (store s5)" and l5: "l < length (store s5)"
    using a p l(3) len by simp_all
  have lp: "l \<noteq> p" and ap: "a \<noteq> p" using l(2) pa by simp_all
  have il': "l \<noteq> a \<Longrightarrow> i < length ?ps - 1" using il by simp
  from unlink_result[OF a5 p5l par5(1) par5(2) par5(3) ps5 i at last l5 lp ap il']
  obtain t' where t': "unlink s5 a False = Some (None, t')" "length (store t') = length (store s5)"
    "trace t' = trace s5" "activeEffectScope t' = activeEffectScope s5"
    "store t' ! p = (store s5 ! p)\<lparr>scopes := Some (butlast (?ps[i := Some l]))\<rparr>"
    "l \<noteq> a \<longrightarrow> store t' ! l = (store s5 ! l)\<lparr>index := Some i\<rparr>"
    "\<forall>x. x \<noteq> p \<and> (x \<noteq> l \<or> l = a) \<longrightarrow> store t' ! x = store s5 ! x"
    by blast
  have t5: "store t' ! p = (store s ! p)\<lparr>scopes := Some (butlast (?ps[i := Some l]))\<rparr>"
    using t'(5) p5 by simp
  have "\<exists>p ps i l. parent (store s ! a) = Some p \<and> \<not> detached (store s ! a) \<and> p < a \<and>
                scopes (store s ! p) = Some ps \<and> ps = children (store s ! p) \<and>
                index (store s ! a) = Some i \<and> i < length ps \<and> ps ! i = Some a \<and>
                last ps = Some l \<and> p < l \<and> l < length (store s) \<and>
                (l \<noteq> a \<longrightarrow> i < length ps - 1) \<and>
                (\<forall>j < length ps. ps ! j = Some a \<longrightarrow> j = i) \<and>
                store t' ! p = (store s ! p)\<lparr>scopes := Some (butlast (ps[i := Some l]))\<rparr> \<and>
                (l \<noteq> a \<longrightarrow> store t' ! l = (store s5 ! l)\<lparr>index := Some i\<rparr>) \<and>
                (\<forall>x. x \<noteq> p \<and> (x \<noteq> l \<or> l = a) \<longrightarrow> store t' ! x = store s5 ! x)"
    apply (rule exI[of _ p], rule exI[of _ ?ps], rule exI[of _ i], rule exI[of _ l])
    apply (intro conjI)
                   apply (rule par)
                  apply (rule det)
                 apply (rule pa)
                apply (rule ps)
               apply (rule refl)
              apply (rule idx)
             apply (rule i)
            apply (rule at)
           apply (rule last)
          apply (rule l(2))
         apply (rule l(3))
        apply (rule il)
       apply (rule uniq)
      apply (rule t5)
     apply (rule t'(6))
    apply (rule t'(7))
    done
  then have B: "(parent (store s ! a) = None \<or> detached (store s ! a)) \<and> t' = s5 \<or>
            (\<exists>p ps i l. parent (store s ! a) = Some p \<and> \<not> detached (store s ! a) \<and> p < a \<and>
                scopes (store s ! p) = Some ps \<and> ps = children (store s ! p) \<and>
                index (store s ! a) = Some i \<and> i < length ps \<and> ps ! i = Some a \<and>
                last ps = Some l \<and> p < l \<and> l < length (store s) \<and>
                (l \<noteq> a \<longrightarrow> i < length ps - 1) \<and>
                (\<forall>j < length ps. ps ! j = Some a \<longrightarrow> j = i) \<and>
                store t' ! p = (store s ! p)\<lparr>scopes := Some (butlast (ps[i := Some l]))\<rparr> \<and>
                (l \<noteq> a \<longrightarrow> store t' ! l = (store s5 ! l)\<lparr>index := Some i\<rparr>) \<and>
                (\<forall>x. x \<noteq> p \<and> (x \<noteq> l \<or> l = a) \<longrightarrow> store t' ! x = store s5 ! x))"
    by (rule disjI2)
  have lt: "length (store t') = length (store s)" using t'(2) len by simp
  show ?thesis
    apply (rule exI[of _ t'])
    apply (intro conjI)
        apply (rule t'(1))
       apply (rule lt)
      apply (rule t'(3))
     apply (rule t'(4))
    apply (rule B)
    done
qed

lemma parent_stopped: "parent (stopped r) = None"
  by (simp add: stopped_def)

lemma sibling_not_desc:
  assumes wf: "scopes_wf s" and pa: "p < a" and par: "parent (store s ! l) = Some p"
    and la: "l \<noteq> a"
  shows "l \<notin> descendants s a"
proof
  assume d: "l \<in> descendants s a"
  from desc_parent[OF wf d la] obtain y where y: "y \<in> descendants s a"
    "parent (store s ! l) = Some y" by blast
  with par have "p \<in> descendants s a" by simp
  from desc_ge[OF wf_ordered[OF wf] this] pa show False by simp
qed

lemma child_not_desc:
  assumes wf: "scopes_wf s" and x: "x < length (store s)" and nd: "x \<notin> descendants s a"
    and c: "Some c \<in> set (children (store s ! x))" and ca: "c \<noteq> a"
  shows "c \<notin> descendants s a"
proof
  assume d: "c \<in> descendants s a"
  from desc_parent[OF wf d ca] obtain y where y: "y \<in> descendants s a"
    "parent (store s ! c) = Some y" by blast
  from wf_child_parent[OF wf x c] have "parent (store s ! c) = Some x" by simp
  with y have "x \<in> descendants s a" by simp
  with nd show False by simp
qed

lemma parent_not_desc:
  assumes wf: "scopes_wf s" and x: "x < length (store s)" and nd: "x \<notin> descendants s a"
    and par: "parent (store s ! x) = Some q" and det: "\<not> detached (store s ! x)"
  shows "q \<notin> descendants s a"
proof
  assume d: "q \<in> descendants s a"
  from wf_parent[OF wf x par det] obtain i where i: "q < x"
    "i < length (children (store s ! q))" "children (store s ! q) ! i = Some x" by blast
  from i(2,3) have m: "Some x \<in> set (children (store s ! q))" by (metis nth_mem)
  from i(1) x have q: "q < length (store s)" by simp
  from d q m have "x \<in> descendants s a" by (rule descendants.step)
  with nd show False by simp
qed

lemma stop_nodes:
  assumes wf: "scopes_wf s" and al: "a < length (store s)" and acta: "active (store s ! a)"
    and q: "quiet_from cb s a"
  shows "\<exists>s'. stop cb s a False = Some (None, s') \<and> length (store s') = length (store s) \<and>
      activeEffectScope s' = activeEffectScope s \<and>
      (\<forall>d \<in> descendants s a. store s' ! d = stopped (store s ! d)) \<and>
      ((parent (store s ! a) = None \<or> detached (store s ! a)) \<and>
         (\<forall>x < length (store s). x \<notin> descendants s a \<longrightarrow> store s' ! x = store s ! x) \<or>
       (\<exists>p ps i l. parent (store s ! a) = Some p \<and> \<not> detached (store s ! a) \<and> p < a \<and>
           ps = children (store s ! p) \<and> index (store s ! a) = Some i \<and> i < length ps \<and>
           ps ! i = Some a \<and> last ps = Some l \<and> p < l \<and> l < length (store s) \<and>
           (l \<noteq> a \<longrightarrow> i < length ps - 1) \<and>
           (\<forall>j < length ps. ps ! j = Some a \<longrightarrow> j = i) \<and>
           store s' ! p = (store s ! p)\<lparr>scopes := Some (butlast (ps[i := Some l]))\<rparr> \<and>
           (l \<noteq> a \<longrightarrow> store s' ! l = (store s ! l)\<lparr>index := Some i\<rparr>) \<and>
           (\<forall>x < length (store s). x \<notin> descendants s a \<longrightarrow> x \<noteq> p \<longrightarrow> x \<noteq> l \<longrightarrow>
              store s' ! x = store s ! x)))"
proof -
  let ?L = "length (store s)"
  have ord: "ordered s" using wf by (rule wf_ordered)
  have w2: "\<forall>x < length (store s). \<forall>c. Some c \<in> set (children (store s ! x)) \<longrightarrow>
               active (store s ! c)"
    using wf_children_active[OF wf] by blast
  have IH: "\<And>t d. ordered t \<Longrightarrow> length (store t) = ?L \<Longrightarrow> d < ?L \<Longrightarrow> a < d \<Longrightarrow>
          quiet_from cb t d \<Longrightarrow>
          \<exists>s'. stopN cb ?L t d True = Some (None, s') \<and> stops_from t d s'"
    by (rule stopN_stops) simp_all
  from stop_body[where fp = False, OF IH ord al acta q]
  obtain s5 rest where
    run: "stopN cb (Suc ?L) s a False =
       andThen (unlink s5 a False) (\<lambda>s6. Some (None, update s6 a (\<lambda>x. x\<lparr>parent := None\<rparr>)))"
    and sf: "stops_from s a (update s5 a (\<lambda>x. x\<lparr>parent := None\<rparr>))"
    and len5: "length (store s5) = ?L"
    and at5: "store s5 ! a = (stopped (store s ! a))\<lparr>parent := parent (store s ! a)\<rparr>"
    and low5: "\<forall>x < a. store s5 ! x = store s ! x"
    by blast
  let ?s2 = "update s5 a (\<lambda>x. x\<lparr>parent := None\<rparr>)"
  from sf have st: "stops s ?s2" and na2: "\<not> active (store ?s2 ! a)"
    and reach: "\<forall>x < ?L. active (store s ! x) \<longrightarrow> \<not> active (store ?s2 ! x) \<longrightarrow> x \<in> descendants s a"
    unfolding stops_from_def by simp_all
  have casc2: "\<And>d. d \<in> descendants s a \<Longrightarrow> active (store s ! d) \<and> \<not> active (store ?s2 ! d)"
    using st na2 al acta ord w2 by (rule cascade)
  have ae2: "activeEffectScope ?s2 = activeEffectScope s" using st by (simp add: stops_def)
  then have ae5: "activeEffectScope s5 = activeEffectScope s" by (simp add: update_def)
  have in2: "\<And>d. d \<in> descendants s a \<Longrightarrow> store ?s2 ! d = stopped (store s ! d)"
  proof -
    fix d assume d: "d \<in> descendants s a"
    have dl: "d < ?L" using d by (rule desc_lt[OF ord al])
    from casc2[OF d] have "store ?s2 ! d \<noteq> store s ! d" by auto
    with stops_cases[OF st dl] show "store ?s2 ! d = stopped (store s ! d)" by blast
  qed
  have out2: "\<And>x. x < ?L \<Longrightarrow> x \<notin> descendants s a \<Longrightarrow> store ?s2 ! x = store s ! x"
  proof -
    fix x assume x: "x < ?L" and nd: "x \<notin> descendants s a"
    show "store ?s2 ! x = store s ! x"
    proof (rule ccontr)
      assume ne: "store ?s2 ! x \<noteq> store s ! x"
      with stops_cases[OF st x] have ax: "active (store s ! x)"
        and sx: "store ?s2 ! x = stopped (store s ! x)" by blast+
      from sx have "\<not> active (store ?s2 ! x)" by (simp add: stopped_def)
      with reach x ax have "x \<in> descendants s a" by blast
      with nd show False by simp
    qed
  qed
  have s52: "\<And>x. x \<noteq> a \<Longrightarrow> store s5 ! x = store ?s2 ! x" by (simp add: update_def)
  have ain: "a \<in> descendants s a" by (rule descendants.base)
  from stop_unlink_nodes[OF wf al len5 at5 low5]
  obtain t' where ul: "unlink s5 a False = Some (None, t')" and lent: "length (store t') = ?L"
    and aet: "activeEffectScope t' = activeEffectScope s5"
    and D: "(parent (store s ! a) = None \<or> detached (store s ! a)) \<and> t' = s5 \<or>
            (\<exists>p ps i l. parent (store s ! a) = Some p \<and> \<not> detached (store s ! a) \<and> p < a \<and>
                scopes (store s ! p) = Some ps \<and> ps = children (store s ! p) \<and>
                index (store s ! a) = Some i \<and> i < length ps \<and> ps ! i = Some a \<and>
                last ps = Some l \<and> p < l \<and> l < length (store s) \<and>
                (l \<noteq> a \<longrightarrow> i < length ps - 1) \<and>
                (\<forall>j < length ps. ps ! j = Some a \<longrightarrow> j = i) \<and>
                store t' ! p = (store s ! p)\<lparr>scopes := Some (butlast (ps[i := Some l]))\<rparr> \<and>
                (l \<noteq> a \<longrightarrow> store t' ! l = (store s5 ! l)\<lparr>index := Some i\<rparr>) \<and>
                (\<forall>x. x \<noteq> p \<and> (x \<noteq> l \<or> l = a) \<longrightarrow> store t' ! x = store s5 ! x))"
    by blast
  let ?s' = "update t' a (\<lambda>x. x\<lparr>parent := None\<rparr>)"
  have res: "stop cb s a False = Some (None, ?s')" using run ul by (simp add: stop_def)
  have len': "length (store ?s') = ?L" using lent by (simp add: update_def)
  have ae': "activeEffectScope ?s' = activeEffectScope s" using aet ae5 by (simp add: update_def)
  have other: "\<And>x. x \<noteq> a \<Longrightarrow> store ?s' ! x = store t' ! x" by (simp add: update_def)
  have ata': "store ?s' ! a = (store t' ! a)\<lparr>parent := None\<rparr>"
    using al lent by (simp add: update_def)
  from D show ?thesis
  proof
    assume A: "(parent (store s ! a) = None \<or> detached (store s ! a)) \<and> t' = s5"
    then have root: "parent (store s ! a) = None \<or> detached (store s ! a)" and t5: "t' = s5"
      by simp_all
    have eq2: "store ?s' = store ?s2" using t5 by simp
    have ind: "\<forall>d \<in> descendants s a. store ?s' ! d = stopped (store s ! d)"
      using in2 eq2 by simp
    have outd: "\<forall>x < ?L. x \<notin> descendants s a \<longrightarrow> store ?s' ! x = store s ! x"
      using out2 eq2 by simp
    show ?thesis
      apply (rule exI[of _ ?s'])
      apply (intro conjI)
          apply (rule res)
         apply (rule len')
        apply (rule ae')
       apply (rule ind)
      apply (rule disjI1)
      apply (rule conjI)
       apply (rule root)
      apply (rule outd)
      done
  next
    assume "\<exists>p ps i l. parent (store s ! a) = Some p \<and> \<not> detached (store s ! a) \<and> p < a \<and>
                scopes (store s ! p) = Some ps \<and> ps = children (store s ! p) \<and>
                index (store s ! a) = Some i \<and> i < length ps \<and> ps ! i = Some a \<and>
                last ps = Some l \<and> p < l \<and> l < length (store s) \<and>
                (l \<noteq> a \<longrightarrow> i < length ps - 1) \<and>
                (\<forall>j < length ps. ps ! j = Some a \<longrightarrow> j = i) \<and>
                store t' ! p = (store s ! p)\<lparr>scopes := Some (butlast (ps[i := Some l]))\<rparr> \<and>
                (l \<noteq> a \<longrightarrow> store t' ! l = (store s5 ! l)\<lparr>index := Some i\<rparr>) \<and>
                (\<forall>x. x \<noteq> p \<and> (x \<noteq> l \<or> l = a) \<longrightarrow> store t' ! x = store s5 ! x)"
    then obtain p ps i l where par: "parent (store s ! a) = Some p"
      and det: "\<not> detached (store s ! a)" and pa: "p < a"
      and ps: "ps = children (store s ! p)" and idx: "index (store s ! a) = Some i"
      and i: "i < length ps" and at: "ps ! i = Some a" and last: "last ps = Some l"
      and pl: "p < l" and ll: "l < length (store s)"
      and il: "l \<noteq> a \<longrightarrow> i < length ps - 1"
      and uniq: "\<forall>j < length ps. ps ! j = Some a \<longrightarrow> j = i"
      and tp: "store t' ! p = (store s ! p)\<lparr>scopes := Some (butlast (ps[i := Some l]))\<rparr>"
      and tl: "l \<noteq> a \<longrightarrow> store t' ! l = (store s5 ! l)\<lparr>index := Some i\<rparr>"
      and tx: "\<forall>x. x \<noteq> p \<and> (x \<noteq> l \<or> l = a) \<longrightarrow> store t' ! x = store s5 ! x"
      by blast
    have p: "p < ?L" using pa al by simp
    have ne: "ps \<noteq> []" using i by auto
    then have "Some l \<in> set ps" using last by (metis last_in_set)
    then have lch: "Some l \<in> set (children (store s ! p))" using ps by simp
    from wf_child_parent[OF wf p lch] have lpar: "parent (store s ! l) = Some p" by simp
    have lnd: "l \<noteq> a \<Longrightarrow> l \<notin> descendants s a"
      using wf pa lpar by (rule sibling_not_desc)
    have ta: "store t' ! a = store s5 ! a" using tx pa by (cases "l = a") auto
    have at': "store ?s' ! a = stopped (store s ! a)"
      unfolding ata' ta at5 by (simp add: stopped_def)
    have ind: "\<forall>d \<in> descendants s a. store ?s' ! d = stopped (store s ! d)"
    proof
      fix d assume d: "d \<in> descendants s a"
      show "store ?s' ! d = stopped (store s ! d)"
      proof (cases "d = a")
        case True
        with at' show ?thesis by simp
      next
        case False
        from desc_ge[OF ord d] pa have dp: "d \<noteq> p" by simp
        have dl: "d \<noteq> l \<or> l = a" using lnd d by blast
        from tx dp dl have "store t' ! d = store s5 ! d" by blast
        with other[OF False] s52[OF False] in2[OF d] show ?thesis by simp
      qed
    qed
    have sp: "store ?s' ! p = (store s ! p)\<lparr>scopes := Some (butlast (ps[i := Some l]))\<rparr>"
      using tp other[of p] pa by simp
    have sl: "l \<noteq> a \<longrightarrow> store ?s' ! l = (store s ! l)\<lparr>index := Some i\<rparr>"
    proof
      assume la: "l \<noteq> a"
      from out2[OF ll lnd[OF la]] s52[OF la] have "store s5 ! l = store s ! l" by simp
      with tl la other[OF la] show "store ?s' ! l = (store s ! l)\<lparr>index := Some i\<rparr>" by simp
    qed
    have sx: "\<forall>x < ?L. x \<notin> descendants s a \<longrightarrow> x \<noteq> p \<longrightarrow> x \<noteq> l \<longrightarrow>
              store ?s' ! x = store s ! x"
    proof (intro allI impI)
      fix x assume x: "x < ?L" and nd: "x \<notin> descendants s a" and xp: "x \<noteq> p" and xl: "x \<noteq> l"
      from nd ain have xa: "x \<noteq> a" by blast
      from tx xp xl have "store t' ! x = store s5 ! x" by blast
      with other[OF xa] s52[OF xa] out2[OF x nd] show "store ?s' ! x = store s ! x" by simp
    qed
    have B: "\<exists>p ps i l. parent (store s ! a) = Some p \<and> \<not> detached (store s ! a) \<and> p < a \<and>
           ps = children (store s ! p) \<and> index (store s ! a) = Some i \<and> i < length ps \<and>
           ps ! i = Some a \<and> last ps = Some l \<and> p < l \<and> l < length (store s) \<and>
           (l \<noteq> a \<longrightarrow> i < length ps - 1) \<and>
           (\<forall>j < length ps. ps ! j = Some a \<longrightarrow> j = i) \<and>
           store ?s' ! p = (store s ! p)\<lparr>scopes := Some (butlast (ps[i := Some l]))\<rparr> \<and>
           (l \<noteq> a \<longrightarrow> store ?s' ! l = (store s ! l)\<lparr>index := Some i\<rparr>) \<and>
           (\<forall>x < length (store s). x \<notin> descendants s a \<longrightarrow> x \<noteq> p \<longrightarrow> x \<noteq> l \<longrightarrow>
              store ?s' ! x = store s ! x)"
      apply (rule exI[of _ p], rule exI[of _ ps], rule exI[of _ i], rule exI[of _ l])
      apply (intro conjI)
                    apply (rule par)
                   apply (rule det)
                  apply (rule pa)
                 apply (rule ps)
                apply (rule idx)
               apply (rule i)
              apply (rule at)
             apply (rule last)
            apply (rule pl)
           apply (rule ll)
          apply (rule il)
         apply (rule uniq)
        apply (rule sp)
       apply (rule sl)
      apply (rule sx)
      done
    show ?thesis
      apply (rule exI[of _ ?s'])
      apply (intro conjI)
          apply (rule res)
         apply (rule len')
        apply (rule ae')
       apply (rule ind)
      apply (rule disjI2)
      apply (rule B)
      done
  qed
qed

lemma scopes_wf_stop_root:
  assumes wf: "scopes_wf s" and al: "a < length (store s)"
    and len: "length (store s') = length (store s)"
    and root: "parent (store s ! a) = None \<or> detached (store s ! a)"
    and ind: "\<forall>d \<in> descendants s a. store s' ! d = stopped (store s ! d)"
    and outd: "\<forall>x < length (store s). x \<notin> descendants s a \<longrightarrow> store s' ! x = store s ! x"
  shows "scopes_wf s'"
proof (rule scopes_wf_intro)
  fix x j assume x: "x < length (store s')" and j: "j < length (children (store s' ! x))"
  from x len have xl: "x < length (store s)" by simp
  have nd: "x \<notin> descendants s a"
  proof
    assume "x \<in> descendants s a"
    with ind have "store s' ! x = stopped (store s ! x)" by blast
    with j show False by (simp add: children_stopped)
  qed
  with outd xl have same: "store s' ! x = store s ! x" by blast
  with j have j': "j < length (children (store s ! x))" by simp
  from wf_child[OF wf xl j'] obtain c where c: "children (store s ! x) ! j = Some c" "x < c"
    "c < length (store s)" "parent (store s ! c) = Some x" "index (store s ! c) = Some j"
    "\<not> detached (store s ! c)" by blast
  from c(4,6) root have ca: "c \<noteq> a" by auto
  from j' c(1) have "Some c \<in> set (children (store s ! x))" by (metis nth_mem)
  with wf xl nd have "c \<notin> descendants s a" using ca by (rule child_not_desc)
  with outd c(3) have "store s' ! c = store s ! c" by blast
  with c same len
  show "\<exists>c. children (store s' ! x) ! j = Some c \<and> x < c \<and> c < length (store s') \<and>
               parent (store s' ! c) = Some x \<and> index (store s' ! c) = Some j \<and>
               \<not> detached (store s' ! c)" by simp
next
  fix x assume x: "x < length (store s')" and na: "\<not> active (store s' ! x)"
  from x len have xl: "x < length (store s)" by simp
  show "parent (store s' ! x) = None"
  proof (cases "x \<in> descendants s a")
    case True
    with ind have "store s' ! x = stopped (store s ! x)" by blast
    then show ?thesis by (simp add: parent_stopped)
  next
    case False
    with outd xl have same: "store s' ! x = store s ! x" by blast
    with na wf_inactive_parent[OF wf xl] show ?thesis by simp
  qed
next
  fix x q assume x: "x < length (store s')" and par: "parent (store s' ! x) = Some q"
    and det: "\<not> detached (store s' ! x)"
  from x len have xl: "x < length (store s)" by simp
  have nd: "x \<notin> descendants s a"
  proof
    assume "x \<in> descendants s a"
    with ind have "store s' ! x = stopped (store s ! x)" by blast
    with par show False by (simp add: parent_stopped)
  qed
  with outd xl have same: "store s' ! x = store s ! x" by blast
  from par det same have par0: "parent (store s ! x) = Some q" and det0: "\<not> detached (store s ! x)"
    by simp_all
  from wf_parent[OF wf xl par0 det0] obtain i where i: "q < x" "index (store s ! x) = Some i"
    "i < length (children (store s ! q))" "children (store s ! q) ! i = Some x" by blast
  have ql: "q < length (store s)" using i(1) xl by simp
  from wf xl nd par0 det0 have "q \<notin> descendants s a" by (rule parent_not_desc)
  with outd ql have "store s' ! q = store s ! q" by blast
  with i same
  show "q < x \<and> (\<exists>i. index (store s' ! x) = Some i \<and> i < length (children (store s' ! q)) \<and>
                children (store s' ! q) ! i = Some x)" by simp
qed

lemma children_scopes_upd: "children (r\<lparr>scopes := Some qs\<rparr>) = qs"
  by (simp add: children_def)

lemma children_index_upd: "children (r\<lparr>index := v\<rparr>) = children r"
  by (simp add: children_def)

lemma scopes_wf_stop_child:
  assumes wf: "scopes_wf s" and al: "a < length (store s)"
    and len: "length (store s') = length (store s)"
    and par: "parent (store s ! a) = Some p" and det: "\<not> detached (store s ! a)"
    and pa: "p < a"
    and ps: "ps = children (store s ! p)" and idx: "index (store s ! a) = Some i"
    and i: "i < length ps" and at: "ps ! i = Some a" and last: "last ps = Some l"
    and pl: "p < l" and ll: "l < length (store s)"
    and il: "l \<noteq> a \<longrightarrow> i < length ps - 1"
    and uniq: "\<forall>j < length ps. ps ! j = Some a \<longrightarrow> j = i"
    and ind: "\<forall>d \<in> descendants s a. store s' ! d = stopped (store s ! d)"
    and sp: "store s' ! p = (store s ! p)\<lparr>scopes := Some (butlast (ps[i := Some l]))\<rparr>"
    and sl: "l \<noteq> a \<longrightarrow> store s' ! l = (store s ! l)\<lparr>index := Some i\<rparr>"
    and sx: "\<forall>x < length (store s). x \<notin> descendants s a \<longrightarrow> x \<noteq> p \<longrightarrow> x \<noteq> l \<longrightarrow>
              store s' ! x = store s ! x"
  shows "scopes_wf s'"
proof -
  let ?qs = "butlast (ps[i := Some l])"
  have ord: "ordered s" using wf by (rule wf_ordered)
  have p: "p < length (store s)" using pa al by simp
  have ne: "ps \<noteq> []" using i by auto
  then have lastj: "length ps - 1 < length (children (store s ! p))" using ps by simp
  have lastn: "ps ! (length ps - 1) = Some l" using last ne by (simp add: last_conv_nth)
  from wf_child[OF wf p lastj] lastn ps have lpar: "parent (store s ! l) = Some p"
    and lidx: "index (store s ! l) = Some (length ps - 1)" and ldet: "\<not> detached (store s ! l)"
    by auto
  have ain: "a \<in> descendants s a" by (rule descendants.base)
  have pnd: "p \<notin> descendants s a" using desc_ge[OF ord, of p a] pa by auto
  have lnd: "l \<noteq> a \<Longrightarrow> l \<notin> descendants s a"
    using wf pa lpar by (rule sibling_not_desc)
  have lenq: "length ?qs = length ps - 1" by simp
  have chp: "children (store s' ! p) = ?qs" unfolding sp by (rule children_scopes_upd)
  have ali: "l = a \<Longrightarrow> i = length ps - 1"
  proof -
    assume "l = a"
    with lastn have "ps ! (length ps - 1) = Some a" by simp
    moreover have "length ps - 1 < length ps" using ne by simp
    ultimately show "i = length ps - 1" using uniq by metis
  qed
  have qsi: "l \<noteq> a \<Longrightarrow> ?qs ! i = Some l"
  proof -
    assume "l \<noteq> a"
    with il have "i < length ps - 1" by simp
    then show "?qs ! i = Some l" by (simp add: nth_butlast)
  qed
  have qsj: "\<And>j. j < length ps - 1 \<Longrightarrow> j \<noteq> i \<Longrightarrow> ?qs ! j = ps ! j"
    by (simp add: nth_butlast)
  have fpar: "\<And>x. x < length (store s) \<Longrightarrow> x \<notin> descendants s a \<Longrightarrow>
      parent (store s' ! x) = parent (store s ! x) \<and>
      detached (store s' ! x) = detached (store s ! x) \<and>
      active (store s' ! x) = active (store s ! x)"
  proof -
    fix x assume x: "x < length (store s)" and nd: "x \<notin> descendants s a"
    show "parent (store s' ! x) = parent (store s ! x) \<and>
      detached (store s' ! x) = detached (store s ! x) \<and>
      active (store s' ! x) = active (store s ! x)"
    proof (cases "x = p")
      case True
      then show ?thesis by (simp add: sp)
    next
      case False
      show ?thesis
      proof (cases "x = l")
        case True
        with nd ain have "l \<noteq> a" by blast
        with sl True show ?thesis by simp
      next
        case F2: False
        with sx x nd False have "store s' ! x = store s ! x" by blast
        then show ?thesis by simp
      qed
    qed
  qed
  have fch: "\<And>x. x < length (store s) \<Longrightarrow> x \<notin> descendants s a \<Longrightarrow> x \<noteq> p \<Longrightarrow>
      children (store s' ! x) = children (store s ! x)"
  proof -
    fix x assume x: "x < length (store s)" and nd: "x \<notin> descendants s a" and xp: "x \<noteq> p"
    show "children (store s' ! x) = children (store s ! x)"
    proof (cases "x = l")
      case True
      with nd ain have "l \<noteq> a" by blast
      with sl True show ?thesis by (simp add: children_index_upd)
    next
      case False
      with sx x nd xp have "store s' ! x = store s ! x" by blast
      then show ?thesis by simp
    qed
  qed
  have fidx: "\<And>x. x < length (store s) \<Longrightarrow> x \<notin> descendants s a \<Longrightarrow> x \<noteq> l \<Longrightarrow>
      index (store s' ! x) = index (store s ! x)"
  proof -
    fix x assume x: "x < length (store s)" and nd: "x \<notin> descendants s a" and xl: "x \<noteq> l"
    show "index (store s' ! x) = index (store s ! x)"
    proof (cases "x = p")
      case True
      then show ?thesis by (simp add: sp)
    next
      case False
      with sx x nd xl have "store s' ! x = store s ! x" by blast
      then show ?thesis by simp
    qed
  qed
  have inch: "\<And>x. x \<in> descendants s a \<Longrightarrow> children (store s' ! x) = []"
    using ind by (simp add: children_stopped)
  have inpar: "\<And>x. x \<in> descendants s a \<Longrightarrow> parent (store s' ! x) = None"
    using ind by (simp add: parent_stopped)
  show ?thesis
  proof (rule scopes_wf_intro)
    fix x j assume x: "x < length (store s')" and j: "j < length (children (store s' ! x))"
    from x len have xl: "x < length (store s)" by simp
    have nd: "x \<notin> descendants s a"
    proof
      assume "x \<in> descendants s a"
      from inch[OF this] j show False by simp
    qed
    show "\<exists>c. children (store s' ! x) ! j = Some c \<and> x < c \<and> c < length (store s') \<and>
               parent (store s' ! c) = Some x \<and> index (store s' ! c) = Some j \<and>
               \<not> detached (store s' ! c)"
    proof (cases "x = p")
      case True
      from j True chp lenq have jl: "j < length ps - 1" by simp
      show ?thesis
      proof (cases "j = i")
        case True
        with jl ali have la: "l \<noteq> a" by auto
        from qsi[OF la] True have c1: "?qs ! j = Some l" by simp
        from sl la have e: "store s' ! l = (store s ! l)\<lparr>index := Some i\<rparr>" by simp
        have c4: "parent (store s' ! l) = Some p" unfolding e using lpar by simp
        have c5: "index (store s' ! l) = Some j" unfolding e using True by simp
        have c6: "\<not> detached (store s' ! l)" unfolding e using ldet by simp
        from c1 pl ll c4 c5 c6 len \<open>x = p\<close> chp show ?thesis by simp
      next
        case False
        from jl ps have jp: "j < length (children (store s ! p))" by simp
        from wf_child[OF wf p jp] obtain c where c: "children (store s ! p) ! j = Some c" "p < c"
          "c < length (store s)" "parent (store s ! c) = Some p" "index (store s ! c) = Some j"
          "\<not> detached (store s ! c)" by blast
        from c(1) ps have pj: "ps ! j = Some c" by simp
        have ca: "c \<noteq> a"
        proof
          assume "c = a"
          with pj uniq jl have "j = i" by simp
          with False show False by simp
        qed
        have cl: "c \<noteq> l" using c(5) lidx jl by auto
        have cp: "c \<noteq> p" using c(2) by simp
        have cnd: "c \<notin> descendants s a" using wf pa c(4) ca by (rule sibling_not_desc)
        from sx c(3) cnd cp cl have e: "store s' ! c = store s ! c" by blast
        from qsj[OF jl False] pj have c1: "?qs ! j = Some c" by simp
        from c1 c(2-6) e len \<open>x = p\<close> chp show ?thesis by simp
      qed
    next
      case False
      from fch[OF xl nd False] have ch: "children (store s' ! x) = children (store s ! x)" .
      with j have j': "j < length (children (store s ! x))" by simp
      from wf_child[OF wf xl j'] obtain c where c: "children (store s ! x) ! j = Some c" "x < c"
        "c < length (store s)" "parent (store s ! c) = Some x" "index (store s ! c) = Some j"
        "\<not> detached (store s ! c)" by blast
      from c(4) par False have ca: "c \<noteq> a" by auto
      from c(4) lpar False have cl: "c \<noteq> l" by auto
      from j' c(1) have "Some c \<in> set (children (store s ! x))" by (metis nth_mem)
      with wf xl nd have cnd: "c \<notin> descendants s a" using ca by (rule child_not_desc)
      from fpar[OF c(3) cnd] fidx[OF c(3) cnd cl] c ch len show ?thesis by simp
    qed
  next
    fix x assume x: "x < length (store s')" and na: "\<not> active (store s' ! x)"
    from x len have xl: "x < length (store s)" by simp
    show "parent (store s' ! x) = None"
    proof (cases "x \<in> descendants s a")
      case True
      then show ?thesis by (rule inpar)
    next
      case False
      from fpar[OF xl False] na wf_inactive_parent[OF wf xl] show ?thesis by simp
    qed
  next
    fix x q assume x: "x < length (store s')" and parx: "parent (store s' ! x) = Some q"
      and detx: "\<not> detached (store s' ! x)"
    from x len have xl: "x < length (store s)" by simp
    have nd: "x \<notin> descendants s a"
    proof
      assume "x \<in> descendants s a"
      from inpar[OF this] parx show False by simp
    qed
    from nd ain have xa: "x \<noteq> a" by blast
    from fpar[OF xl nd] parx detx have par0: "parent (store s ! x) = Some q"
      and det0: "\<not> detached (store s ! x)" by simp_all
    from wf_parent[OF wf xl par0 det0] obtain k where k: "q < x" "index (store s ! x) = Some k"
      "k < length (children (store s ! q))" "children (store s ! q) ! k = Some x" by blast
    have ql: "q < length (store s)" using k(1) xl by simp
    from wf xl nd par0 det0 have qnd: "q \<notin> descendants s a" by (rule parent_not_desc)
    show "q < x \<and> (\<exists>i. index (store s' ! x) = Some i \<and> i < length (children (store s' ! q)) \<and>
                children (store s' ! q) ! i = Some x)"
    proof (cases "q = p")
      case True
      show ?thesis
      proof (cases "x = l")
        case xl': True
        with xa have la: "l \<noteq> a" by simp
        from sl la have e: "store s' ! l = (store s ! l)\<lparr>index := Some i\<rparr>" by simp
        have i1: "index (store s' ! x) = Some i" unfolding xl' e by simp
        from il la have i2: "i < length ?qs" by simp
        from qsi[OF la] xl' have i3: "?qs ! i = Some x" by simp
        from k(1) i1 i2 i3 True chp show ?thesis by simp
      next
        case False
        from k(3,4) True ps have kp: "k < length ps" "ps ! k = Some x" by simp_all
        have k1: "k \<noteq> length ps - 1" using kp(2) lastn False by auto
        with kp(1) have k2: "k < length ps - 1" by simp
        have k3: "k \<noteq> i" using kp(2) at xa by auto
        from fidx[OF xl nd False] k(2) have i1: "index (store s' ! x) = Some k" by simp
        from qsj[OF k2 k3] kp(2) have i3: "?qs ! k = Some x" by simp
        from k(1) i1 k2 i3 True chp show ?thesis by simp
      qed
    next
      case False
      from fch[OF ql qnd False] have ch: "children (store s' ! q) = children (store s ! q)" .
      have xl': "x \<noteq> l" using par0 lpar False by auto
      from fidx[OF xl nd xl'] k ch show ?thesis by simp
    qed
  qed
qed

lemma scopes_wf_stop:
  assumes wf: "scopes_wf s" and al: "a < length (store s)" and q: "quiet_from cb s a"
    and r: "stop cb s a False = Some (None, s')"
  shows "scopes_wf s'"
proof (cases "active (store s ! a)")
  case False
  have "stop cb s a False = Some (None, s)" unfolding stop_def using al False by (rule stopN_inactive)
  with r wf show ?thesis by simp
next
  case True
  from stop_nodes[OF wf al True q] r
  have len: "length (store s') = length (store s)"
    and ind: "\<forall>d \<in> descendants s a. store s' ! d = stopped (store s ! d)"
    and D: "(parent (store s ! a) = None \<or> detached (store s ! a)) \<and>
         (\<forall>x < length (store s). x \<notin> descendants s a \<longrightarrow> store s' ! x = store s ! x) \<or>
       (\<exists>p ps i l. parent (store s ! a) = Some p \<and> \<not> detached (store s ! a) \<and> p < a \<and>
           ps = children (store s ! p) \<and> index (store s ! a) = Some i \<and> i < length ps \<and>
           ps ! i = Some a \<and> last ps = Some l \<and> p < l \<and> l < length (store s) \<and>
           (l \<noteq> a \<longrightarrow> i < length ps - 1) \<and>
           (\<forall>j < length ps. ps ! j = Some a \<longrightarrow> j = i) \<and>
           store s' ! p = (store s ! p)\<lparr>scopes := Some (butlast (ps[i := Some l]))\<rparr> \<and>
           (l \<noteq> a \<longrightarrow> store s' ! l = (store s ! l)\<lparr>index := Some i\<rparr>) \<and>
           (\<forall>x < length (store s). x \<notin> descendants s a \<longrightarrow> x \<noteq> p \<longrightarrow> x \<noteq> l \<longrightarrow>
              store s' ! x = store s ! x))"
    by auto
  from D show ?thesis
  proof
    assume "(parent (store s ! a) = None \<or> detached (store s ! a)) \<and>
         (\<forall>x < length (store s). x \<notin> descendants s a \<longrightarrow> store s' ! x = store s ! x)"
    then have root: "parent (store s ! a) = None \<or> detached (store s ! a)"
      and outd: "\<forall>x < length (store s). x \<notin> descendants s a \<longrightarrow> store s' ! x = store s ! x"
      by blast+
    from wf al len root ind outd show ?thesis by (rule scopes_wf_stop_root)
  next
    assume "\<exists>p ps i l. parent (store s ! a) = Some p \<and> \<not> detached (store s ! a) \<and> p < a \<and>
           ps = children (store s ! p) \<and> index (store s ! a) = Some i \<and> i < length ps \<and>
           ps ! i = Some a \<and> last ps = Some l \<and> p < l \<and> l < length (store s) \<and>
           (l \<noteq> a \<longrightarrow> i < length ps - 1) \<and>
           (\<forall>j < length ps. ps ! j = Some a \<longrightarrow> j = i) \<and>
           store s' ! p = (store s ! p)\<lparr>scopes := Some (butlast (ps[i := Some l]))\<rparr> \<and>
           (l \<noteq> a \<longrightarrow> store s' ! l = (store s ! l)\<lparr>index := Some i\<rparr>) \<and>
           (\<forall>x < length (store s). x \<notin> descendants s a \<longrightarrow> x \<noteq> p \<longrightarrow> x \<noteq> l \<longrightarrow>
              store s' ! x = store s ! x)"
    then obtain p ps i l where f: "parent (store s ! a) = Some p" "\<not> detached (store s ! a)"
      "p < a" "ps = children (store s ! p)" "index (store s ! a) = Some i" "i < length ps"
      "ps ! i = Some a" "last ps = Some l" "p < l" "l < length (store s)"
      "l \<noteq> a \<longrightarrow> i < length ps - 1"
      "\<forall>j < length ps. ps ! j = Some a \<longrightarrow> j = i"
      "store s' ! p = (store s ! p)\<lparr>scopes := Some (butlast (ps[i := Some l]))\<rparr>"
      "l \<noteq> a \<longrightarrow> store s' ! l = (store s ! l)\<lparr>index := Some i\<rparr>"
      "\<forall>x < length (store s). x \<notin> descendants s a \<longrightarrow> x \<noteq> p \<longrightarrow> x \<noteq> l \<longrightarrow>
              store s' ! x = store s ! x"
      by blast
    from wf al len f(1-12) ind f(13-15) show ?thesis by (rule scopes_wf_stop_child)
  qed
qed

section \<open>Properties of computed.ts\<close>

text \<open>
  Claim C7. A computed constructed without a setter is readonly, one constructed with
  a setter is not. Assigning to \<open>value\<close> of a computed without a setter leaves the whole
  program state as it was, whatever the user functions are; with a setter, it does what
  calling that setter on the assigned value does.
\<close>

theorem computed_set_value:
  "cr_isReadonly (ComputedRefImpl_new d dirty gv fn None) \<and>
   \<not> cr_isReadonly (ComputedRefImpl_new d dirty gv fn (Some f)) \<and>
   cr_setter (ComputedRefImpl_new d dirty gv fn st) = st \<and>
   (cr_setter c = None \<longrightarrow> set_value call c x w = w) \<and>
   (cr_setter c = Some f \<longrightarrow> set_value call c x w = call f x w)"
  by (simp add: ComputedRefImpl_new_def set_value_def)

theorem computed_set_value_witness:
  "cr_setter (ComputedRefImpl_new 0 16 1 0 None) = None \<and>
   set_value (\<lambda>f x w. w @ [(f, x)]) (ComputedRefImpl_new 0 16 1 0 None) (Number (Fin 5)) [] = [] \<and>
   cr_setter (ComputedRefImpl_new 0 16 1 0 (Some 7)) = Some 7 \<and>
   set_value (\<lambda>f x w. w @ [(f, x)]) (ComputedRefImpl_new 0 16 1 0 (Some 7)) (Number (Fin 5)) [] =
     [(7, Number (Fin 5))]"
  using computed_set_value[of 0 16 1 0 7 None "ComputedRefImpl_new 0 16 1 0 None"
      "\<lambda>f x w. w @ [(f, x)]" "Number (Fin 5)" "[]"]
    computed_set_value[of 0 16 1 0 7 "Some 7" "ComputedRefImpl_new 0 16 1 0 (Some 7)"
      "\<lambda>f x w. w @ [(f, x)]" "Number (Fin 5)" "[]"]
  by simp

end
